theory Spec2Isabelle
  imports Complex_Main "HOL-Library.Word" "HOL-Library.Monad_Syntax"
begin

unbundle bit_operations_syntax

section \<open>Conventions of the embedding\<close>

text \<open>
  The signal-processing engine is embedded over exact arithmetic: a C++ \<^verbatim>\<open>double\<close> or
  \<^verbatim>\<open>float\<close> is a \<^typ>\<open>real\<close>, \<^verbatim>\<open>std::complex<double>\<close> is a \<^typ>\<open>complex\<close>, and the
  literal \<^verbatim>\<open>3.14159265358979323846\<close> (\<^verbatim>\<open>PI\<close>, \<^verbatim>\<open>M_PI\<close>) is \<^term>\<open>pi\<close>. The one place where
  the source narrows a \<^verbatim>\<open>double\<close> to a \<^verbatim>\<open>float\<close> (the return of \<^verbatim>\<open>BiquadFilter::process\<close>)
  is kept as a parameter \<open>rnd\<close> of the model, so that every statement holds for any
  rounding. \<^verbatim>\<open>std::max\<close> and \<^verbatim>\<open>std::min\<close> on doubles are \<^const>\<open>max\<close> and \<^const>\<open>min\<close>.
  A \<^verbatim>\<open>std::array<T, N>\<close> and a C array \<^verbatim>\<open>T[N]\<close> are functions from the index to the element;
  only the indices below \<open>N\<close> are ever read or written. Member names lose their trailing
  underscore.
\<close>

section \<open>The equalizer: \<^verbatim>\<open>eq_processor.hpp\<close>\<close>

definition NUM_BANDS :: int where "NUM_BANDS = 5"

definition DEFAULT_FREQUENCIES :: "nat \<Rightarrow> real" where
  "DEFAULT_FREQUENCIES i = [60, 250, 1000, 4000, 12000] ! i"

definition MIN_FREQ :: real where "MIN_FREQ = 20"
definition MAX_FREQ :: real where "MAX_FREQ = 20000"
definition MIN_GAIN :: real where "MIN_GAIN = - 12"
definition MAX_GAIN :: real where "MAX_GAIN = 12"
definition MIN_Q :: real where "MIN_Q = 1 / 10"
definition MAX_Q :: real where "MAX_Q = 10"
definition DEFAULT_Q :: real where "DEFAULT_Q = 707 / 1000"

subsection \<open>\<^verbatim>\<open>class BiquadFilter\<close>\<close>

record BiquadFilter =
  b0 :: real
  b1 :: real
  b2 :: real
  a1 :: real
  a2 :: real
  x1 :: "nat \<Rightarrow> real"
  x2 :: "nat \<Rightarrow> real"
  y1 :: "nat \<Rightarrow> real"
  y2 :: "nat \<Rightarrow> real"

text \<open>The member initialisers followed by the constructor's call of \<^verbatim>\<open>reset()\<close>.\<close>

definition BiquadFilter_reset :: "BiquadFilter \<Rightarrow> BiquadFilter" where
  "BiquadFilter_reset f =
     f\<lparr>x1 := (\<lambda>_. 0), x2 := (\<lambda>_. 0), y1 := (\<lambda>_. 0), y2 := (\<lambda>_. 0)\<rparr>"

definition BiquadFilter_new :: BiquadFilter where
  "BiquadFilter_new =
     BiquadFilter_reset
       \<lparr>b0 = 1, b1 = 0, b2 = 0, a1 = 0, a2 = 0,
        x1 = (\<lambda>_. 0), x2 = (\<lambda>_. 0), y1 = (\<lambda>_. 0), y2 = (\<lambda>_. 0)\<rparr>"

definition setPeakingEQ :: "real \<Rightarrow> real \<Rightarrow> real \<Rightarrow> real \<Rightarrow> BiquadFilter \<Rightarrow> BiquadFilter" where
  "setPeakingEQ sampleRate' freq0 gainDb q0 f =
     (let freq = max 20 (min freq0 (sampleRate' * (45 / 100)));
          q = max (1 / 10) (min q0 10);
          A = 10 powr (gainDb / 40);
          w0 = 2 * pi * freq / sampleRate';
          cosw0 = cos w0;
          sinw0 = sin w0;
          alpha = sinw0 / (2 * q);
          a0 = 1 + alpha / A
      in f\<lparr>b0 := (1 + alpha * A) / a0,
           b1 := (- 2 * cosw0) / a0,
           b2 := (1 - alpha * A) / a0,
           a1 := (- 2 * cosw0) / a0,
           a2 := (1 - alpha / A) / a0\<rparr>)"

text \<open>
  \<^verbatim>\<open>float process(float input, int channel)\<close>: returns the filter with its delay line
  shifted and the output sample; \<open>rnd\<close> is the narrowing \<^verbatim>\<open>static_cast<float>\<close>.
\<close>

definition BiquadFilter_process ::
  "(real \<Rightarrow> real) \<Rightarrow> BiquadFilter \<Rightarrow> real \<Rightarrow> nat \<Rightarrow> BiquadFilter \<times> real" where
  "BiquadFilter_process rnd f input channel =
     (let x0 = input;
          y0 = b0 f * x0 + b1 f * x1 f channel + b2 f * x2 f channel
               - a1 f * y1 f channel - a2 f * y2 f channel
      in (f\<lparr>x2 := (x2 f)(channel := x1 f channel),
             x1 := (x1 f)(channel := x0),
             y2 := (y2 f)(channel := y1 f channel),
             y1 := (y1 f)(channel := y0)\<rparr>,
          rnd y0))"

subsection \<open>\<^verbatim>\<open>class EQProcessor\<close>\<close>

record EQProcessor =
  sampleRate :: real
  bypass :: bool
  frequencies :: "nat \<Rightarrow> real"
  gains :: "nat \<Rightarrow> real"
  qFactors :: "nat \<Rightarrow> real"
  filters :: "nat \<Rightarrow> BiquadFilter"

definition EQProcessor_new :: EQProcessor where
  "EQProcessor_new =
     \<lparr>sampleRate = 44100, bypass = False,
      frequencies = DEFAULT_FREQUENCIES,
      gains = (\<lambda>_. 0),
      qFactors = (\<lambda>_. DEFAULT_Q),
      filters = (\<lambda>_. BiquadFilter_new)\<rparr>"

definition updateFilter :: "nat \<Rightarrow> EQProcessor \<Rightarrow> EQProcessor" where
  "updateFilter band s =
     s\<lparr>filters := (filters s)
          (band := setPeakingEQ (sampleRate s) (frequencies s band) (gains s band)
                     (qFactors s band) (filters s band))\<rparr>"

definition setBandGain :: "int \<Rightarrow> real \<Rightarrow> EQProcessor \<Rightarrow> EQProcessor" where
  "setBandGain band gainDb s =
     (if band \<ge> 0 \<and> band < NUM_BANDS
      then updateFilter (nat band)
             (s\<lparr>gains := (gains s)(nat band := max MIN_GAIN (min MAX_GAIN gainDb))\<rparr>)
      else s)"

definition setBandFrequency :: "int \<Rightarrow> real \<Rightarrow> EQProcessor \<Rightarrow> EQProcessor" where
  "setBandFrequency band freq s =
     (if band \<ge> 0 \<and> band < NUM_BANDS
      then updateFilter (nat band)
             (s\<lparr>frequencies := (frequencies s)(nat band := max MIN_FREQ (min MAX_FREQ freq))\<rparr>)
      else s)"

definition setBandQ :: "int \<Rightarrow> real \<Rightarrow> EQProcessor \<Rightarrow> EQProcessor" where
  "setBandQ band q s =
     (if band \<ge> 0 \<and> band < NUM_BANDS
      then updateFilter (nat band)
             (s\<lparr>qFactors := (qFactors s)(nat band := max MIN_Q (min MAX_Q q))\<rparr>)
      else s)"

definition setBypass :: "bool \<Rightarrow> EQProcessor \<Rightarrow> EQProcessor" where
  "setBypass b s = s\<lparr>bypass := b\<rparr>"

definition getBandGain :: "EQProcessor \<Rightarrow> int \<Rightarrow> real" where
  "getBandGain s band = (if band \<ge> 0 \<and> band < NUM_BANDS then gains s (nat band) else 0)"

definition getBandFrequency :: "EQProcessor \<Rightarrow> int \<Rightarrow> real" where
  "getBandFrequency s band =
     (if band \<ge> 0 \<and> band < NUM_BANDS then frequencies s (nat band) else 1000)"

definition getBandQ :: "EQProcessor \<Rightarrow> int \<Rightarrow> real" where
  "getBandQ s band =
     (if band \<ge> 0 \<and> band < NUM_BANDS then qFactors s (nat band) else DEFAULT_Q)"

definition isBypassed :: "EQProcessor \<Rightarrow> bool" where
  "isBypassed s = bypass s"

text \<open>The loop header \<^verbatim>\<open>for (int i = 0; i < NUM_BANDS; ++i)\<close>.\<close>

definition band_indices :: "nat list" where
  "band_indices = [0 ..< nat NUM_BANDS]"

text \<open>
  One iteration of the loop of \<^verbatim>\<open>process(float& left, float& right)\<close>; the state is the
  processor together with the two referenced samples.
\<close>

definition process_step ::
  "(real \<Rightarrow> real) \<Rightarrow> nat \<Rightarrow> EQProcessor \<times> real \<times> real \<Rightarrow> EQProcessor \<times> real \<times> real" where
  "process_step rnd i = (\<lambda>(s, left, right).
     if \<bar>gains s i\<bar> > 1 / 100
     then (let (f1, left') = BiquadFilter_process rnd (filters s i) left 0;
               (f2, right') = BiquadFilter_process rnd f1 right 1
           in (s\<lparr>filters := (filters s)(i := f2)\<rparr>, left', right'))
     else (s, left, right))"

definition process ::
  "(real \<Rightarrow> real) \<Rightarrow> EQProcessor \<Rightarrow> real \<Rightarrow> real \<Rightarrow> EQProcessor \<times> real \<times> real" where
  "process rnd s left right =
     (if bypass s then (s, left, right)
      else fold (process_step rnd) band_indices (s, left, right))"

definition processMono_step ::
  "(real \<Rightarrow> real) \<Rightarrow> nat \<Rightarrow> EQProcessor \<times> real \<Rightarrow> EQProcessor \<times> real" where
  "processMono_step rnd i = (\<lambda>(s, input).
     if \<bar>gains s i\<bar> > 1 / 100
     then (let (f1, input') = BiquadFilter_process rnd (filters s i) input 0
           in (s\<lparr>filters := (filters s)(i := f1)\<rparr>, input'))
     else (s, input))"

definition processMono :: "(real \<Rightarrow> real) \<Rightarrow> EQProcessor \<Rightarrow> real \<Rightarrow> EQProcessor \<times> real" where
  "processMono rnd s input =
     (if bypass s then (s, input)
      else fold (processMono_step rnd) band_indices (s, input))"

subsection \<open>The equalizer contract in the words of the specification\<close>

definition spec_active_bands :: "EQProcessor \<Rightarrow> nat list" where
  "spec_active_bands s = filter (\<lambda>i. \<bar>gains s i\<bar> > 1 / 100) [0, 1, 2, 3, 4]"

definition spec_run_band_mono ::
  "(real \<Rightarrow> real) \<Rightarrow> nat \<Rightarrow> EQProcessor \<times> real \<Rightarrow> EQProcessor \<times> real" where
  "spec_run_band_mono rnd i = (\<lambda>(s, x).
     (s\<lparr>filters := (filters s)(i := fst (BiquadFilter_process rnd (filters s i) x 0))\<rparr>,
      snd (BiquadFilter_process rnd (filters s i) x 0)))"

definition spec_run_band_stereo ::
  "(real \<Rightarrow> real) \<Rightarrow> nat \<Rightarrow> EQProcessor \<times> real \<times> real \<Rightarrow> EQProcessor \<times> real \<times> real" where
  "spec_run_band_stereo rnd i = (\<lambda>(s, l, r).
     (s\<lparr>filters := (filters s)
          (i := fst (BiquadFilter_process rnd (fst (BiquadFilter_process rnd (filters s i) l 0)) r 1))\<rparr>,
      snd (BiquadFilter_process rnd (filters s i) l 0),
      snd (BiquadFilter_process rnd (fst (BiquadFilter_process rnd (filters s i) l 0)) r 1)))"

section \<open>Persisted state: \<^verbatim>\<open>plugin_processor.cpp\<close>\<close>

text \<open>
  \<^verbatim>\<open>Steinberg::IBStreamer\<close> belongs to the plugin SDK. It is modelled at the granularity of
  the primitive fields it transfers: a stream is the list of the fields still to be read,
  \<^verbatim>\<open>readInt32\<close> and \<^verbatim>\<open>readDouble\<close> take the first field and fail (\<^verbatim>\<open>false\<close>, here
  \<^const>\<open>None\<close>) when the stream is exhausted or the next field is not of the requested kind,
  and the write operations append a field. A null \<^verbatim>\<open>IBStream*\<close> is \<^const>\<open>None\<close>. The byte order
  (little-endian) is a parameter of the streamer and does not appear at this granularity.
\<close>

datatype tresult = kResultOk | kResultFalse

datatype field = Int32 "32 word" | Double real

type_synonym IBStream = "field list"

definition readInt32 :: "IBStream \<Rightarrow> (32 word \<times> IBStream) option" where
  "readInt32 st = (case st of Int32 v # rest \<Rightarrow> Some (v, rest) | _ \<Rightarrow> None)"

definition readDouble :: "IBStream \<Rightarrow> (real \<times> IBStream) option" where
  "readDouble st = (case st of Double v # rest \<Rightarrow> Some (v, rest) | _ \<Rightarrow> None)"

definition writeInt32 :: "32 word \<Rightarrow> IBStream \<Rightarrow> IBStream" where
  "writeInt32 v st = st @ [Int32 v]"

definition writeDouble :: "real \<Rightarrow> IBStream \<Rightarrow> IBStream" where
  "writeDouble v st = st @ [Double v]"

text \<open>
  The band loop of \<^verbatim>\<open>PluginProcessor::setState\<close>. Each of its three reads returns
  \<^verbatim>\<open>kResultFalse\<close> from the function at once (\<^const>\<open>Inl\<close>, with the equalizer as it is at that
  moment); a band whose three values were read is applied before the next band is read.
\<close>

fun setState_loop ::
  "nat list \<Rightarrow> IBStream \<Rightarrow> EQProcessor \<Rightarrow> EQProcessor + IBStream \<times> EQProcessor" where
  "setState_loop [] st s = Inr (st, s)"
| "setState_loop (band # bands) st s =
     (case readDouble st of None \<Rightarrow> Inl s | Some (gain, st1) \<Rightarrow>
      (case readDouble st1 of None \<Rightarrow> Inl s | Some (freq, st2) \<Rightarrow>
       (case readDouble st2 of None \<Rightarrow> Inl s | Some (q, st3) \<Rightarrow>
          setState_loop bands st3
            (setBandQ (int band) q
              (setBandFrequency (int band) freq
                (setBandGain (int band) gain s))))))"

definition setState :: "IBStream option \<Rightarrow> EQProcessor \<Rightarrow> tresult \<times> EQProcessor" where
  "setState state s =
     (case state of None \<Rightarrow> (kResultFalse, s) | Some st \<Rightarrow>
      (case readInt32 st of None \<Rightarrow> (kResultFalse, s) | Some (version, st1) \<Rightarrow>
       (case setState_loop band_indices st1 s of Inl s1 \<Rightarrow> (kResultFalse, s1)
        | Inr (st2, s1) \<Rightarrow>
          (case readInt32 st2 of None \<Rightarrow> (kResultFalse, s1)
           | Some (bypass', st3) \<Rightarrow> (kResultOk, setBypass (bypass' \<noteq> 0) s1)))))"

text \<open>\<^verbatim>\<open>PluginProcessor::getState\<close>; the results of the writes are not inspected.\<close>

definition getState_band :: "EQProcessor \<Rightarrow> nat \<Rightarrow> IBStream \<Rightarrow> IBStream" where
  "getState_band s band st =
     writeDouble (getBandQ s (int band))
       (writeDouble (getBandFrequency s (int band))
         (writeDouble (getBandGain s (int band)) st))"

definition getState :: "IBStream option \<Rightarrow> EQProcessor \<Rightarrow> tresult \<times> IBStream option" where
  "getState state s =
     (case state of None \<Rightarrow> (kResultFalse, None) | Some st \<Rightarrow>
        (kResultOk,
         Some (writeInt32 (if isBypassed s then 1 else 0)
                (fold (getState_band s) band_indices (writeInt32 1 st)))))"

subsection \<open>The persisted layout in the words of the specification\<close>

text \<open>An equalizer state whose five bands are inside their documented domains.\<close>

definition in_domain :: "EQProcessor \<Rightarrow> bool" where
  "in_domain s = (\<forall>b \<in> set band_indices.
      MIN_GAIN \<le> gains s b \<and> gains s b \<le> MAX_GAIN \<and>
      MIN_FREQ \<le> frequencies s b \<and> frequencies s b \<le> MAX_FREQ \<and>
      MIN_Q \<le> qFactors s b \<and> qFactors s b \<le> MAX_Q)"

text \<open>
  The 17 fields of the persisted layout: the version 1, then gain, frequency and Q of the
  bands 0 to 4, then the bypass flag as 0 or 1.
\<close>

definition spec_layout :: "EQProcessor \<Rightarrow> IBStream" where
  "spec_layout s =
     [Int32 1,
      Double (gains s 0), Double (frequencies s 0), Double (qFactors s 0),
      Double (gains s 1), Double (frequencies s 1), Double (qFactors s 1),
      Double (gains s 2), Double (frequencies s 2), Double (qFactors s 2),
      Double (gains s 3), Double (frequencies s 3), Double (qFactors s 3),
      Double (gains s 4), Double (frequencies s 4), Double (qFactors s 4),
      Int32 (if bypass s then 1 else 0)]"

text \<open>The three setter calls made for one band.\<close>

definition apply_band :: "nat \<Rightarrow> real \<Rightarrow> real \<Rightarrow> real \<Rightarrow> EQProcessor \<Rightarrow> EQProcessor" where
  "apply_band band gain freq q s =
     setBandQ (int band) q (setBandFrequency (int band) freq (setBandGain (int band) gain s))"

text \<open>
  How many of the next \<open>n\<close> bands can be read from a stream: the number of leading
  groups of three \<^const>\<open>Double\<close> fields, at most \<open>n\<close>.
\<close>

fun bands_readable :: "nat \<Rightarrow> IBStream \<Rightarrow> nat" where
  "bands_readable 0 st = 0"
| "bands_readable (Suc n) (Double g # Double f # Double q # st) = Suc (bands_readable n st)"
| "bands_readable (Suc n) st = 0"

fun the_double :: "field \<Rightarrow> real" where
  "the_double (Double v) = v"
| "the_double (Int32 v) = 0"

text \<open>
  A stream is well formed when it starts with the 17 fields of the layout, and malformed
  otherwise (a null stream included). \<open>spec_bands_read\<close> counts the bands whose three
  values precede the first missing or unreadable field, and \<open>spec_band_fields\<close> gives the
  three values found at the position of band \<open>c\<close>.
\<close>

definition spec_well_formed :: "IBStream \<Rightarrow> bool" where
  "spec_well_formed st =
     (case st of
        Int32 v # r \<Rightarrow>
          bands_readable 5 r = 5 \<and> (case drop 15 r of Int32 b # _ \<Rightarrow> True | _ \<Rightarrow> False)
      | _ \<Rightarrow> False)"

definition spec_malformed :: "IBStream option \<Rightarrow> bool" where
  "spec_malformed state = (case state of None \<Rightarrow> True | Some st \<Rightarrow> \<not> spec_well_formed st)"

definition spec_bands_read :: "IBStream option \<Rightarrow> nat" where
  "spec_bands_read state = (case state of Some (Int32 v # r) \<Rightarrow> bands_readable 5 r | _ \<Rightarrow> 0)"

definition spec_band_fields :: "IBStream option \<Rightarrow> nat \<Rightarrow> real \<times> real \<times> real" where
  "spec_band_fields state c =
     (case state of
        Some st \<Rightarrow> (the_double (st ! (1 + 3 * c)), the_double (st ! (2 + 3 * c)),
                    the_double (st ! (3 + 3 * c)))
      | None \<Rightarrow> (0, 0, 0))"

text \<open>
  What a run of the band loop over the bands \<open>k, \<dots>, k + m - 1\<close> on the stream \<open>st\<close> changes
  in the equalizer: nothing outside those bands, and in each of them the stored values are
  the clamped values read.
\<close>

definition loop_frame :: "nat \<Rightarrow> nat \<Rightarrow> IBStream \<Rightarrow> EQProcessor \<Rightarrow> EQProcessor \<Rightarrow> bool" where
  "loop_frame k m st s t \<longleftrightarrow>
     bypass t = bypass s \<and> sampleRate t = sampleRate s \<and>
     (\<forall>c. c < k \<or> k + m \<le> c \<longrightarrow>
        gains t c = gains s c \<and> frequencies t c = frequencies s c \<and>
        qFactors t c = qFactors s c \<and> filters t c = filters s c) \<and>
     (\<forall>c. k \<le> c \<and> c < k + m \<and> c < 5 \<longrightarrow>
        gains t c = max MIN_GAIN (min MAX_GAIN (the_double (st ! (3 * (c - k))))) \<and>
        frequencies t c = max MIN_FREQ (min MAX_FREQ (the_double (st ! (3 * (c - k) + 1)))) \<and>
        qFactors t c = max MIN_Q (min MAX_Q (the_double (st ! (3 * (c - k) + 2))))) \<and>
     (m = 0 \<longrightarrow> t = s)"

section \<open>The transform engine: \<^verbatim>\<open>fft.cpp\<close>\<close>

text \<open>
  The functions of the transform engine return \<^const>\<open>None\<close> when a loop of the source does not
  terminate, \<^const>\<open>Some\<close> of \<^const>\<open>Inl\<close> when the source throws or leaves the bounds of a vector,
  and \<^const>\<open>Some\<close> of \<^const>\<open>Inr\<close> with the result otherwise. \<^verbatim>\<open>size_t\<close> has 64 bits. The bit
  operations of \<^verbatim>\<open>isPowerOf2\<close> and \<^verbatim>\<open>nextPowerOf2\<close> are modelled on 64-bit words; the loop
  counters are natural numbers, with the wrap-around written out where a counter grows by
  more than one (\<^verbatim>\<open>len <<= 1\<close>, \<^verbatim>\<open>i += len\<close>). The allocation of a vector is not modelled.
\<close>

datatype fft_error = invalid_argument | out_of_bounds

type_synonym size_t = "64 word"

definition isPowerOf2 :: "size_t \<Rightarrow> bool" where
  "isPowerOf2 n \<longleftrightarrow> n > 0 \<and> (n AND (n - 1)) = 0"

definition nextPowerOf2 :: "size_t \<Rightarrow> size_t" where
  "nextPowerOf2 n0 =
     (if n0 = 0 then 1
      else let n = n0 - 1;
               n = n OR drop_bit 1 n;
               n = n OR drop_bit 2 n;
               n = n OR drop_bit 4 n;
               n = n OR drop_bit 8 n;
               n = n OR drop_bit 16 n;
               n = n OR drop_bit 32 n
           in n + 1)"

text \<open>\<^verbatim>\<open>constexpr double PI = 3.14159265358979323846\<close>, the double nearest to \<open>\<pi>\<close>.\<close>

definition PI :: real where "PI = pi"

text \<open>
  \<^verbatim>\<open>bitReversePermute\<close>. The inner loop \<^verbatim>\<open>while (k <= j) { j -= k; k >>= 1; }\<close> returns the
  final \<open>(k, j)\<close>; it does not terminate once \<open>k\<close> is 0. The body of the \<^verbatim>\<open>for\<close> loop swaps
  \<^verbatim>\<open>data[i]\<close> and \<^verbatim>\<open>data[j]\<close> when \<open>i < j\<close> and then advances \<open>j\<close>. The function is only
  called on vectors of at least two elements, so \<^verbatim>\<open>n - 1\<close> does not wrap.
\<close>

partial_function (option) bitrev_while :: "nat \<Rightarrow> nat \<Rightarrow> (nat \<times> nat) option" where
  "bitrev_while k j = (if k \<le> j then bitrev_while (k div 2) (j - k) else Some (k, j))"

definition bitrev_body :: "nat \<Rightarrow> nat \<Rightarrow> complex list \<times> nat \<Rightarrow> (complex list \<times> nat) option" where
  "bitrev_body n i = (\<lambda>(data, j).
     let data' = (if i < j then data[i := data ! j, j := data ! i] else data)
     in do { (k, j') \<leftarrow> bitrev_while (n div 2) j; Some (data', j' + k) })"

fun bitrev_for :: "nat \<Rightarrow> nat list \<Rightarrow> complex list \<times> nat \<Rightarrow> (complex list \<times> nat) option" where
  "bitrev_for n [] st = Some st"
| "bitrev_for n (i # is) st = do { st' \<leftarrow> bitrev_body n i st; bitrev_for n is st' }"

definition bitReversePermute :: "complex list \<Rightarrow> complex list option" where
  "bitReversePermute data =
     (let n = length data
      in do { (data', j) \<leftarrow> bitrev_for n [0 ..< n - 1] (data, 0); Some data' })"

text \<open>
  The three nested loops of \<^verbatim>\<open>transformInPlace\<close>, from the innermost: one butterfly on
  \<^verbatim>\<open>data[i + j]\<close> and \<^verbatim>\<open>data[i + j + len / 2]\<close> with the running twiddle factor \<open>w\<close>; the
  loop over \<open>j\<close> for one block; the loop over the blocks \<^verbatim>\<open>for (i = 0; i < n; i += len)\<close>;
  and the loop over the stages \<^verbatim>\<open>for (len = 2; len <= n; len <<= 1)\<close>.
\<close>

definition butterfly :: "nat \<Rightarrow> nat \<Rightarrow> complex \<Rightarrow> nat \<Rightarrow> complex list \<times> complex \<Rightarrow> complex list \<times> complex" where
  "butterfly len i wlen j = (\<lambda>(data, w).
     let u = data ! (i + j);
         t = w * data ! (i + j + len div 2)
     in (data[i + j := u + t, i + j + len div 2 := u - t], w * wlen))"

definition fft_block :: "nat \<Rightarrow> complex \<Rightarrow> nat \<Rightarrow> complex list \<Rightarrow> complex list" where
  "fft_block len wlen i data = fst (fold (butterfly len i wlen) [0 ..< len div 2] (data, 1))"

partial_function (option) fft_blocks ::
  "nat \<Rightarrow> nat \<Rightarrow> complex \<Rightarrow> nat \<Rightarrow> complex list \<Rightarrow> complex list option" where
  "fft_blocks n len wlen i data =
     (if i < n then fft_blocks n len wlen ((i + len) mod 2 ^ 64) (fft_block len wlen i data)
      else Some data)"

definition fft_wlen :: "nat \<Rightarrow> complex" where
  "fft_wlen len = (let angle = - 2 * PI / real len in Complex (cos angle) (sin angle))"

partial_function (option) fft_stages :: "nat \<Rightarrow> nat \<Rightarrow> complex list \<Rightarrow> complex list option" where
  "fft_stages n len data =
     (if len \<le> n
      then do { data' \<leftarrow> fft_blocks n len (fft_wlen len) 0 data;
                fft_stages n ((2 * len) mod 2 ^ 64) data' }
      else Some data)"

text \<open>\<^verbatim>\<open>transformInPlace\<close>: rejects a size that is not a power of two.\<close>

definition transformInPlace :: "complex list \<Rightarrow> (fft_error + complex list) option" where
  "transformInPlace data =
     (let n = length data
      in if \<not> isPowerOf2 (of_nat n) then Some (Inl invalid_argument)
         else if n \<le> 1 then Some (Inr data)
         else do { data1 \<leftarrow> bitReversePermute data;
                   data2 \<leftarrow> fft_stages n 2 data1;
                   Some (Inr data2) })"

text \<open>
  \<^verbatim>\<open>transform\<close>: a vector of \<^verbatim>\<open>nextPowerOf2(signal.size())\<close> zeros, the signal copied into
  its front, then the transform in place. When \<^verbatim>\<open>nextPowerOf2\<close> wraps around, the copy
  would write behind the vector.
\<close>

definition transform :: "real list \<Rightarrow> (fft_error + complex list) option" where
  "transform signal =
     (let n = unat (nextPowerOf2 (of_nat (length signal)));
          data = replicate n (Complex 0 0)
      in if n < length signal then Some (Inl out_of_bounds)
         else transformInPlace
                (fold (\<lambda>i d. d[i := Complex (signal ! i) 0]) [0 ..< length signal] data))"

text \<open>
  \<^verbatim>\<open>inverse\<close> (here \<open>inverse_fft\<close>): conjugate, forward transform, conjugate and divide by
  \<open>n\<close>. An exception of the forward transform propagates.
\<close>

definition inverse_fft :: "complex list \<Rightarrow> (fft_error + complex list) option" where
  "inverse_fft spectrum =
     (let data = map cnj spectrum;
          n = length data
      in do { r \<leftarrow> transformInPlace data;
              Some (case r of Inl e \<Rightarrow> Inl e
                    | Inr data' \<Rightarrow> Inr (map (\<lambda>c. cnj c / of_nat n) data')) })"

text \<open>The expression \<^verbatim>\<open>inverse(transform(x))\<close>.\<close>

definition inverse_of_transform :: "real list \<Rightarrow> (fft_error + complex list) option" where
  "inverse_of_transform x =
     do { r \<leftarrow> transform x;
          case r of Inl e \<Rightarrow> Some (Inl e) | Inr X \<Rightarrow> inverse_fft X }"

definition magnitude :: "complex list \<Rightarrow> real list" where
  "magnitude spectrum = map cmod spectrum"

text \<open>
  \<^verbatim>\<open>applyHannWindow\<close>. For a signal of one sample the source divides zero by zero and the
  window is NaN; the value of the model is not meaningful there.
\<close>

definition applyHannWindow :: "real list \<Rightarrow> real list" where
  "applyHannWindow signal =
     (let n = length signal
      in map (\<lambda>i. signal ! i * (1 / 2 * (1 - cos (2 * PI * real i / real (n - 1))))) [0 ..< n])"

subsection \<open>Notions used to state what the transform computes\<close>

text \<open>The reversal of the lowest \<open>k\<close> bits of \<open>i\<close>.\<close>

fun bitrev :: "nat \<Rightarrow> nat \<Rightarrow> nat" where
  "bitrev 0 i = 0"
| "bitrev (Suc k) i = 2 ^ k * (i mod 2) + bitrev k (i div 2)"

text \<open>
  The vector after the first \<open>m\<close> iterations of the permutation loop on \<open>x\<close>: the positions
  below \<open>m\<close> and their partners hold the element of the reversed index.
\<close>

definition bitrev_done :: "nat \<Rightarrow> complex list \<Rightarrow> nat \<Rightarrow> complex list \<Rightarrow> bool" where
  "bitrev_done k x m data \<longleftrightarrow>
     length data = 2 ^ k \<and>
     (\<forall>p < 2 ^ k. data ! p = (if p < m \<or> bitrev k p < m then x ! bitrev k p else x ! p))"

text \<open>
  The element at \<open>p\<close> after the first \<open>m\<close> butterflies of the block at \<open>i\<close> with half length
  \<open>h\<close>, and after a whole stage.
\<close>

definition bfly_val :: "nat \<Rightarrow> complex \<Rightarrow> nat \<Rightarrow> nat \<Rightarrow> complex list \<Rightarrow> nat \<Rightarrow> complex" where
  "bfly_val h w i m data p =
     (if i \<le> p \<and> p < i + m then data ! p + w ^ (p - i) * data ! (p + h)
      else if i + h \<le> p \<and> p < i + h + m then data ! (p - h) - w ^ (p - i - h) * data ! p
      else data ! p)"

definition stage_val :: "nat \<Rightarrow> complex \<Rightarrow> complex list \<Rightarrow> nat \<Rightarrow> complex" where
  "stage_val h w data p =
     (if p mod (2 * h) < h then data ! p + w ^ (p mod (2 * h)) * data ! (p + h)
      else data ! (p - h) - w ^ (p mod (2 * h) - h) * data ! p)"

text \<open>
  The state between two stages: the block \<open>b\<close> of length \<open>2 ^ s\<close> holds the transform of the
  subsequence of \<open>x\<close> that starts at the reversal of \<open>b\<close> and has stride \<open>2 ^ (k - s)\<close>.
\<close>

definition dft_blocks :: "nat \<Rightarrow> nat \<Rightarrow> complex list \<Rightarrow> complex list \<Rightarrow> bool" where
  "dft_blocks k s x data \<longleftrightarrow>
     length data = 2 ^ k \<and>
     (\<forall>b < 2 ^ (k - s). \<forall>r < 2 ^ s.
        data ! (b * 2 ^ s + r) =
        (\<Sum>q < 2 ^ s. x ! (bitrev (k - s) b + 2 ^ (k - s) * q) * fft_wlen (2 ^ s) ^ (q * r)))"

text \<open>The discrete Fourier transform, with the kernel \<open>e\<^sup>-\<^sup>2\<^sup>\<pi>\<^sup>i\<^sup>q\<^sup>r\<^sup>/\<^sup>n\<close>.\<close>

definition dft :: "complex list \<Rightarrow> complex list" where
  "dft x = map (\<lambda>r. \<Sum>q < length x. x ! q * cis (- 2 * pi / real (length x)) ^ (q * r))
             [0 ..< length x]"

text \<open>The six shift-and-or steps of \<^verbatim>\<open>nextPowerOf2\<close>.\<close>

definition smear :: "64 word \<Rightarrow> 64 word" where
  "smear x =
     (let n = x;
          n = n OR drop_bit 1 n;
          n = n OR drop_bit 2 n;
          n = n OR drop_bit 4 n;
          n = n OR drop_bit 8 n;
          n = n OR drop_bit 16 n;
          n = n OR drop_bit 32 n
      in n)"

text \<open>A real signal as complex numbers, padded with zeros to the length \<open>n\<close>.\<close>

definition spec_zero_pad :: "real list \<Rightarrow> nat \<Rightarrow> complex list" where
  "spec_zero_pad signal n =
     map (\<lambda>v. Complex v 0) signal @ replicate (n - length signal) (Complex 0 0)"

section \<open>The spectrum analyzer: \<^verbatim>\<open>audio_analyzer.cpp\<close>\<close>

text \<open>
  The members of \<^verbatim>\<open>AudioAnalyzerImpl\<close> that \<^verbatim>\<open>updateBands\<close> and \<^verbatim>\<open>computeSpectrum\<close> read or
  write. Two member names are already taken by the equalizer and carry a prime here:
  \<^verbatim>\<open>sampleRate\<close> (a \<^verbatim>\<open>uint32_t\<close>) and \<^verbatim>\<open>SpectrumData::frequencies\<close>.

  Both functions return \<^const>\<open>None\<close> where the source has no defined result: an index outside
  a vector, a remainder by zero, or a \<^verbatim>\<open>double\<close> converted to \<^verbatim>\<open>size_t\<close> whose value \<^verbatim>\<open>size_t\<close>
  cannot hold (which includes every infinity and every NaN).
\<close>

record AnalyzerConfig =
  fftSize :: nat
  hopSize :: nat
  smoothingFactor :: real
  minFrequency :: real
  maxFrequency :: real
  numBands :: nat
  useLogScale :: bool

record SpectrumData =
  magnitudes :: "real list"
  frequencies' :: "real list"
  peakFrequency :: real
  rmsLevel :: real
  peakLevel :: real

record AudioAnalyzerImpl =
  sampleRate' :: nat
  config :: AnalyzerConfig
  currentSpectrum :: SpectrumData
  sampleBuffer :: "real list"
  bufferWritePos :: nat
  smoothedMagnitudes :: "real list"
  bandFrequencies :: "real list"
  bandBins :: "(nat \<times> nat) list"

text \<open>\<^verbatim>\<open>std::vector::resize(n)\<close> and \<^verbatim>\<open>resize(n, v)\<close>.\<close>

definition resize :: "nat \<Rightarrow> 'a \<Rightarrow> 'a list \<Rightarrow> 'a list" where
  "resize n v xs = take n xs @ replicate (n - length xs) v"

text \<open>
  \<^verbatim>\<open>static_cast<size_t>(x)\<close> truncates towards zero and is defined when the truncated value
  fits into 64 bits. The largest \<^verbatim>\<open>double\<close> below \<open>2\<^sup>6\<^sup>4\<close> is \<open>2\<^sup>6\<^sup>4 - 2048\<close>.
\<close>

definition to_size_t :: "real \<Rightarrow> nat option" where
  "to_size_t x = (if - 1 < x \<and> x \<le> 2 ^ 64 - 2048 then Some (nat \<lfloor>x\<rfloor>) else None)"

text \<open>
  \<^verbatim>\<open>static_cast<size_t>(freq / binWidth)\<close> with
  \<^verbatim>\<open>binWidth = static_cast<double>(sampleRate) / fftSize\<close>. With \<open>fftSize = 0\<close> the bin width is
  \<open>+\<infinity>\<close> (and the quotient 0) for a positive sample rate and NaN for the sample rate 0; with
  \<open>sampleRate = 0\<close> and \<open>fftSize > 0\<close> the bin width is 0 and the quotient is infinite or NaN.
\<close>

definition bin_of :: "nat \<Rightarrow> nat \<Rightarrow> real \<Rightarrow> nat option" where
  "bin_of sr fs freq =
     (if sr = 0 then None
      else if fs = 0 then Some 0
      else to_size_t (freq / (real sr / real fs)))"

text \<open>
  The common tail of the two loop bodies of \<^verbatim>\<open>updateBands\<close>: the centre frequency is
  stored twice, the band edges become bins, and \<^verbatim>\<open>if (binHigh <= binLow) binHigh = binLow + 1\<close>.
\<close>

definition set_band ::
  "nat \<Rightarrow> real \<Rightarrow> real \<Rightarrow> real \<Rightarrow> AudioAnalyzerImpl \<Rightarrow> AudioAnalyzerImpl option" where
  "set_band i freqLow freqHigh freqCenter a =
     (if i < length (bandFrequencies a) \<and> i < length (frequencies' (currentSpectrum a)) \<and>
         i < length (bandBins a)
      then do {
        binLow \<leftarrow> bin_of (sampleRate' a) (fftSize (config a)) freqLow;
        binHigh \<leftarrow> bin_of (sampleRate' a) (fftSize (config a)) freqHigh;
        Some (a\<lparr>bandFrequencies := (bandFrequencies a)[i := freqCenter],
                currentSpectrum := (currentSpectrum a)
                  \<lparr>frequencies' := (frequencies' (currentSpectrum a))[i := freqCenter]\<rparr>,
                bandBins := (bandBins a)
                  [i := (binLow, if binHigh \<le> binLow then (binLow + 1) mod 2 ^ 64 else binHigh)]\<rparr>)
      }
      else None)"

text \<open>
  The body of the logarithmic loop. \<^verbatim>\<open>std::log10\<close> of a number that is not positive is
  \<open>-\<infinity>\<close> or NaN, and makes the band edges NaN.
\<close>

definition log_band :: "real \<Rightarrow> real \<Rightarrow> nat \<Rightarrow> AudioAnalyzerImpl \<Rightarrow> AudioAnalyzerImpl option" where
  "log_band minFreq maxFreq i a =
     (if minFreq \<le> 0 \<or> maxFreq \<le> 0 then None
      else let logMin = log 10 minFreq;
               logMax = log 10 maxFreq;
               logStep = (logMax - logMin) / real (numBands (config a));
               freqLow = 10 powr (logMin + real i * logStep);
               freqHigh = 10 powr (logMin + real (i + 1) * logStep);
               freqCenter = sqrt (freqLow * freqHigh)
           in set_band i freqLow freqHigh freqCenter a)"

definition linear_band :: "real \<Rightarrow> real \<Rightarrow> nat \<Rightarrow> AudioAnalyzerImpl \<Rightarrow> AudioAnalyzerImpl option" where
  "linear_band minFreq maxFreq i a =
     (let freqStep = (maxFreq - minFreq) / real (numBands (config a));
          freqLow = minFreq + real i * freqStep;
          freqHigh = freqLow + freqStep;
          freqCenter = (freqLow + freqHigh) / 2
      in set_band i freqLow freqHigh freqCenter a)"

text \<open>A \<^verbatim>\<open>for\<close> loop over the indices of a list, stopping where a body has no result.\<close>

fun for_each :: "(nat \<Rightarrow> 's \<Rightarrow> 's option) \<Rightarrow> nat list \<Rightarrow> 's \<Rightarrow> 's option" where
  "for_each body [] s = Some s"
| "for_each body (i # is) s = (case body i s of None \<Rightarrow> None | Some s' \<Rightarrow> for_each body is s')"

definition updateBands :: "AudioAnalyzerImpl \<Rightarrow> AudioAnalyzerImpl option" where
  "updateBands a0 =
     (let minFreq = minFrequency (config a0);
          maxFreq = min (maxFrequency (config a0)) (real (sampleRate' a0) / 2);
          numBands' = numBands (config a0);
          a = a0\<lparr>bandFrequencies := resize numBands' 0 (bandFrequencies a0),
                  bandBins := resize numBands' (0, 0) (bandBins a0)\<rparr>
      in if useLogScale (config a0)
         then for_each (log_band minFreq maxFreq) [0 ..< numBands'] a
         else for_each (linear_band minFreq maxFreq) [0 ..< numBands'] a)"

text \<open>
  \<^verbatim>\<open>computeSpectrum\<close>, first part: the last \<open>fftSize\<close> samples of the circular buffer, in
  \<^verbatim>\<open>size_t\<close> arithmetic.
\<close>

definition analysis_samples :: "AudioAnalyzerImpl \<Rightarrow> real list option" where
  "analysis_samples a =
     (let fftSize' = fftSize (config a);
          size = length (sampleBuffer a)
      in if size = 0 then None
         else let readPos = ((bufferWritePos a + size + 2 ^ 64 - fftSize') mod 2 ^ 64) mod size
              in Some (map (\<lambda>i. sampleBuffer a ! (((readPos + i) mod 2 ^ 64) mod size))
                        [0 ..< fftSize']))"

text \<open>
  Second part: Hann window, transform, magnitudes, each scaled by \<^verbatim>\<open>2.0 / fftSize\<close>. These
  are the unsmoothed magnitudes. (For \<open>fftSize = 1\<close> the window of the source is NaN; the
  bin loops below are empty then and read none of these values.)
\<close>

definition analysis_magnitudes :: "nat \<Rightarrow> real list \<Rightarrow> (fft_error + real list) option" where
  "analysis_magnitudes fftSize' samples =
     do { r \<leftarrow> transform (applyHannWindow samples);
          Some (case r of Inl e \<Rightarrow> Inl e
                | Inr spectrum \<Rightarrow> Inr (map (\<lambda>m. m * (2 / real fftSize')) (magnitude spectrum))) }"

text \<open>
  The body of the loop over the bins of one band, on \<open>(bandMax, maxMag, peakBin)\<close>. The
  source also accumulates \<^verbatim>\<open>sum\<close> and \<^verbatim>\<open>count\<close>, which nothing reads.
\<close>

definition bin_step :: "real list \<Rightarrow> nat \<Rightarrow> real \<times> real \<times> nat \<Rightarrow> (real \<times> real \<times> nat) option" where
  "bin_step mags bin = (\<lambda>(bandMax, maxMag, peakBin).
     if bin < length mags
     then let mag = mags ! bin
          in Some (if mag > bandMax then mag else bandMax,
                   if mag > maxMag then mag else maxMag,
                   if mag > maxMag then bin else peakBin)
     else None)"

text \<open>The body of the loop over the bands, on the analyzer and \<open>(maxMag, peakBin)\<close>.\<close>

definition band_step ::
  "real list \<Rightarrow> nat \<Rightarrow> nat \<Rightarrow> AudioAnalyzerImpl \<times> real \<times> nat \<Rightarrow>
   (AudioAnalyzerImpl \<times> real \<times> nat) option" where
  "band_step mags halfSize band = (\<lambda>(a, maxMag, peakBin).
     if band < length (bandBins a) \<and> band < length (magnitudes (currentSpectrum a))
     then let (startBin, endBin0) = bandBins a ! band
          in if startBin \<ge> halfSize
             then Some (a\<lparr>currentSpectrum := (currentSpectrum a)
                          \<lparr>magnitudes := (magnitudes (currentSpectrum a))[band := 0]\<rparr>\<rparr>,
                        maxMag, peakBin)
             else let endBin = min endBin0 (halfSize - 1)
                  in do {
                    (bandMax, maxMag', peakBin') \<leftarrow>
                      for_each (bin_step mags) [startBin ..< Suc endBin] (0, maxMag, peakBin);
                    if band < length (smoothedMagnitudes a)
                    then let sm = smoothingFactor (config a) * smoothedMagnitudes a ! band +
                                  (1 - smoothingFactor (config a)) * bandMax
                         in Some (a\<lparr>smoothedMagnitudes := (smoothedMagnitudes a)[band := sm],
                                     currentSpectrum := (currentSpectrum a)
                                       \<lparr>magnitudes := (magnitudes (currentSpectrum a))[band := sm]\<rparr>\<rparr>,
                                  maxMag', peakBin')
                    else None }
     else None)"

text \<open>
  Third part: the loop over the bands, started with \<open>maxMag = 0\<close> and \<open>peakBin = 0\<close>, and the
  peak frequency.
\<close>

definition map_to_bands :: "nat \<Rightarrow> real list \<Rightarrow> AudioAnalyzerImpl \<Rightarrow> AudioAnalyzerImpl option" where
  "map_to_bands fftSize' mags an1 =
     do { (an2, maxMag, peakBin) \<leftarrow>
            for_each (band_step mags (fftSize' div 2)) [0 ..< numBands (config an1)] (an1, 0, 0);
          let binWidth = real (sampleRate' an2) / real fftSize'
          in Some (an2\<lparr>currentSpectrum := (currentSpectrum an2)
                       \<lparr>peakFrequency := real peakBin * binWidth\<rparr>\<rparr>) }"

text \<open>The level and the peak of the raw window, stored before the transform.\<close>

definition store_levels :: "real list \<Rightarrow> AudioAnalyzerImpl \<Rightarrow> AudioAnalyzerImpl" where
  "store_levels samples a0 =
     (let rms = sqrt ((\<Sum>s\<leftarrow>samples. s * s) / real (length samples));
          peak = fold (\<lambda>s p. max p \<bar>s\<bar>) samples 0
      in a0\<lparr>currentSpectrum := (currentSpectrum a0)\<lparr>rmsLevel := rms, peakLevel := peak\<rparr>\<rparr>)"

text \<open>
  \<^verbatim>\<open>computeSpectrum\<close>. With \<open>fftSize = 0\<close> the level and the peak frequency of the source are
  NaN, which the embedding does not hold. An exception of the transform propagates.
\<close>

definition computeSpectrum :: "AudioAnalyzerImpl \<Rightarrow> (fft_error + AudioAnalyzerImpl) option" where
  "computeSpectrum a0 =
     (let fftSize' = fftSize (config a0)
      in if fftSize' = 0 then None
         else do {
           samples \<leftarrow> analysis_samples a0;
           r \<leftarrow> analysis_magnitudes fftSize' samples;
           case r of
             Inl e \<Rightarrow> Some (Inl e)
           | Inr mags \<Rightarrow> map_option Inr (map_to_bands fftSize' mags (store_levels samples a0))
         })"

subsection \<open>Notions used to state what the analyzer computes\<close>

text \<open>
  The bins that the band loop of \<^verbatim>\<open>computeSpectrum\<close> visits, in its order: for each band in
  turn whose first bin is below \<open>halfSize\<close>, the bins from the first to the last, the last
  one capped at \<open>halfSize - 1\<close>.
\<close>

definition band_bins :: "nat \<Rightarrow> nat \<times> nat \<Rightarrow> nat list" where
  "band_bins halfSize = (\<lambda>(startBin, endBin).
     if startBin \<ge> halfSize then [] else [startBin ..< Suc (min endBin (halfSize - 1))])"

definition spec_visited_bins :: "AudioAnalyzerImpl \<Rightarrow> nat list" where
  "spec_visited_bins a =
     concat (map (band_bins (fftSize (config a) div 2)) (take (numBands (config a)) (bandBins a)))"

text \<open>The running maximum and its bin, as the bin loop updates them.\<close>

definition peak_step :: "real list \<Rightarrow> nat \<Rightarrow> real \<times> nat \<Rightarrow> real \<times> nat" where
  "peak_step mags bin = (\<lambda>(maxMag, peakBin).
     if mags ! bin > maxMag then (mags ! bin, bin) else (maxMag, peakBin))"

text \<open>
  The bin with the largest magnitude among all the bins of the positive-frequency half,
  \<open>0, \<dots>, halfSize - 1\<close> (the lowest such bin when several are largest).
\<close>

definition spec_global_peak_bin :: "real list \<Rightarrow> nat \<Rightarrow> nat" where
  "spec_global_peak_bin mags halfSize =
     snd (fold (peak_step mags) [1 ..< halfSize] (mags ! 0, 0))"




text \<open>
  An analyzer at 44100 Hz with a transform of 4 points and one linear band from 12000 Hz
  to 20000 Hz, whose bin range is \<open>(1, 2)\<close>; the circular buffer of 8 samples holds
  \<open>0, 1, 1, 0\<close> as its last four. \<open>peak_example_magnitudes\<close> are the unsmoothed magnitudes of
  that window.
\<close>

definition peak_example :: AudioAnalyzerImpl where
  "peak_example =
     \<lparr>sampleRate' = 44100,
      config = \<lparr>fftSize = 4, hopSize = 1, smoothingFactor = 7 / 10, minFrequency = 12000,
                maxFrequency = 20000, numBands = 1, useLogScale = False\<rparr>,
      currentSpectrum = \<lparr>magnitudes = [0], frequencies' = [16000], peakFrequency = 0,
                         rmsLevel = 0, peakLevel = 0\<rparr>,
      sampleBuffer = [0, 1, 1, 0, 0, 0, 0, 0], bufferWritePos = 4, smoothedMagnitudes = [0],
      bandFrequencies = [16000], bandBins = [(1, 2)]\<rparr>"

definition peak_example_magnitudes :: "real list" where
  "peak_example_magnitudes = [3 / 4, sqrt (9 / 8) / 2, 0, sqrt (9 / 8) / 2]"

text \<open>The peak frequency that \<^verbatim>\<open>computeSpectrum\<close> stores.\<close>

definition reported_peak :: "AudioAnalyzerImpl \<Rightarrow> (fft_error + real) option" where
  "reported_peak a =
     map_option (map_sum id (\<lambda>a'. peakFrequency (currentSpectrum a'))) (computeSpectrum a)"

text \<open>
  The peak frequency in the words of the specification: the global peak bin of the
  unsmoothed magnitudes times \<open>sampleRate / fftSize\<close>.
\<close>

definition spec_claimed_peak :: "AudioAnalyzerImpl \<Rightarrow> (fft_error + real) option" where
  "spec_claimed_peak a =
     do { samples \<leftarrow> analysis_samples a;
          r \<leftarrow> analysis_magnitudes (fftSize (config a)) samples;
          Some (map_sum id
                 (\<lambda>mags. real (spec_global_peak_bin mags (fftSize (config a) div 2)) *
                          (real (sampleRate' a) / real (fftSize (config a)))) r) }"





section \<open>Theorems\<close>

lemma band_indices_eq: "band_indices = [0, 1, 2, 3, 4]"
  by (simp add: band_indices_def NUM_BANDS_def upt_rec)

text \<open>
  C10. For every band index outside \<open>[0, 4]\<close> the getters return fixed defaults in every
  equalizer state: \<open>getBandGain\<close> gives 0 dB, \<open>getBandFrequency\<close> gives 1000 Hz and
  \<open>getBandQ\<close> gives the default Q of 0.707.
\<close>

theorem getters_default_out_of_range:
  "band < 0 \<or> 4 < band \<Longrightarrow>
     getBandGain s band = 0 \<and> getBandFrequency s band = 1000 \<and>
     getBandQ s band = 707 / 1000"
  by (auto simp: getBandGain_def getBandFrequency_def getBandQ_def NUM_BANDS_def DEFAULT_Q_def)

theorem getters_default_out_of_range_witness:
  "((7::int) < 0 \<or> 4 < (7::int)) \<and>
   getBandGain EQProcessor_new 7 = 0 \<and> getBandFrequency EQProcessor_new 7 = 1000 \<and>
   getBandQ EQProcessor_new 7 = 707 / 1000"
  using getters_default_out_of_range [of 7 EQProcessor_new] by simp

subsection \<open>Setters\<close>

lemma setPeakingEQ_twice:
  "setPeakingEQ sr f g q (setPeakingEQ sr f g q flt) = setPeakingEQ sr f g q flt"
  by (simp add: setPeakingEQ_def Let_def)

text \<open>
  C4. For every band index outside \<open>[0, 4]\<close> the three setters leave the whole equalizer
  state unchanged. For every index in \<open>[0, 4]\<close> and every value, the value stored afterwards
  is the input clamped to its domain (gain to \<open>[-12, 12]\<close>, frequency to \<open>[20, 20000]\<close>, Q to
  \<open>[0.1, 10]\<close>), and calling a setter twice with the same value gives the same state as
  calling it once.
\<close>

theorem setters_noop_clamp_idempotent:
  "(band < 0 \<or> 4 < band \<longrightarrow>
      setBandGain band v s = s \<and> setBandFrequency band v s = s \<and> setBandQ band v s = s) \<and>
   (0 \<le> band \<and> band \<le> 4 \<longrightarrow>
      gains (setBandGain band v s) (nat band) = max (- 12) (min 12 v) \<and>
      frequencies (setBandFrequency band v s) (nat band) = max 20 (min 20000 v) \<and>
      qFactors (setBandQ band v s) (nat band) = max (1 / 10) (min 10 v) \<and>
      setBandGain band v (setBandGain band v s) = setBandGain band v s \<and>
      setBandFrequency band v (setBandFrequency band v s) = setBandFrequency band v s \<and>
      setBandQ band v (setBandQ band v s) = setBandQ band v s)"
  by (simp add: setBandGain_def setBandFrequency_def setBandQ_def updateFilter_def NUM_BANDS_def
      MIN_GAIN_def MAX_GAIN_def MIN_FREQ_def MAX_FREQ_def MIN_Q_def MAX_Q_def setPeakingEQ_twice)

theorem setters_noop_clamp_idempotent_witness:
  "((7::int) < 0 \<or> 4 < (7::int)) \<and> (0 \<le> (2::int) \<and> (2::int) \<le> 4) \<and>
   setBandGain 7 100 EQProcessor_new = EQProcessor_new \<and>
   gains (setBandGain 2 100 EQProcessor_new) (nat 2) = 12 \<and>
   setBandGain 2 100 (setBandGain 2 100 EQProcessor_new) = setBandGain 2 100 EQProcessor_new"
  using setters_noop_clamp_idempotent [of 7 100 EQProcessor_new]
        setters_noop_clamp_idempotent [of 2 100 EQProcessor_new]
  by simp

subsection \<open>Processing\<close>

text \<open>
  C5. With the bypass flag set, \<open>process\<close> leaves both samples unchanged and \<open>processMono\<close>
  returns its input, and neither changes the processor: in particular the delay state
  \<open>x1, x2, y1, y2\<close> of every band and channel is as before.
\<close>

theorem bypass_skips_processing:
  "bypass s \<Longrightarrow> process rnd s left right = (s, left, right) \<and> processMono rnd s input = (s, input)"
  by (simp add: process_def processMono_def)

theorem bypass_skips_processing_witness:
  "bypass (setBypass True EQProcessor_new) \<and>
   process (\<lambda>x. x) (setBypass True EQProcessor_new) 1 2 = (setBypass True EQProcessor_new, 1, 2) \<and>
   processMono (\<lambda>x. x) (setBypass True EQProcessor_new) 1 = (setBypass True EQProcessor_new, 1)"
  using bypass_skips_processing [of "setBypass True EQProcessor_new" "\<lambda>x. x" 1 2 1]
  by (simp add: setBypass_def)

lemma processMono_step_gains: "gains (fst (processMono_step rnd i p)) = gains (fst p)"
  by (cases p) (simp add: processMono_step_def Let_def split: prod.splits)

lemma process_step_gains: "gains (fst (process_step rnd i p)) = gains (fst p)"
  by (cases p) (simp add: process_step_def Let_def split: prod.splits)

lemma spec_run_band_mono_gains: "gains (fst (spec_run_band_mono rnd i p)) = gains (fst p)"
  by (cases p) (simp add: spec_run_band_mono_def)

lemma fold_processMono_step:
  "fold (processMono_step rnd) is p =
   fold (spec_run_band_mono rnd) (filter (\<lambda>i. \<bar>gains (fst p) i\<bar> > 1 / 100) is) p"
proof (induction "is" arbitrary: p)
  case Nil
  show ?case by simp
next
  case (Cons i "is")
  show ?case
  proof (cases "\<bar>gains (fst p) i\<bar> > 1 / 100")
    case True
    have step: "processMono_step rnd i p = spec_run_band_mono rnd i p"
      using True by (cases p) (simp add: processMono_step_def spec_run_band_mono_def split: prod.splits)
    have "fold (processMono_step rnd) (i # is) p = fold (processMono_step rnd) is (spec_run_band_mono rnd i p)"
      by (simp only: fold_simps step)
    also have "\<dots> = fold (spec_run_band_mono rnd)
        (filter (\<lambda>j. \<bar>gains (fst (spec_run_band_mono rnd i p)) j\<bar> > 1 / 100) is) (spec_run_band_mono rnd i p)"
      by (rule Cons.IH)
    also have "\<dots> = fold (spec_run_band_mono rnd) (filter (\<lambda>j. \<bar>gains (fst p) j\<bar> > 1 / 100) (i # is)) p"
      using True by (simp only: spec_run_band_mono_gains filter.simps if_True fold_simps)
    finally show ?thesis .
  next
    case False
    have step: "processMono_step rnd i p = p"
      using False by (cases p) (simp add: processMono_step_def)
    have "fold (processMono_step rnd) (i # is) p = fold (processMono_step rnd) is p"
      by (simp only: fold_simps step)
    also have "\<dots> = fold (spec_run_band_mono rnd) (filter (\<lambda>j. \<bar>gains (fst p) j\<bar> > 1 / 100) is) p"
      by (rule Cons.IH)
    also have "\<dots> = fold (spec_run_band_mono rnd) (filter (\<lambda>j. \<bar>gains (fst p) j\<bar> > 1 / 100) (i # is)) p"
      using False by (simp only: filter.simps if_False)
    finally show ?thesis .
  qed
qed

lemma spec_run_band_stereo_gains: "gains (fst (spec_run_band_stereo rnd i p)) = gains (fst p)"
  by (cases p) (simp add: spec_run_band_stereo_def split: prod.splits)

lemma fold_process_step:
  "fold (process_step rnd) is p =
   fold (spec_run_band_stereo rnd) (filter (\<lambda>i. \<bar>gains (fst p) i\<bar> > 1 / 100) is) p"
proof (induction "is" arbitrary: p)
  case Nil
  show ?case by simp
next
  case (Cons i "is")
  show ?case
  proof (cases "\<bar>gains (fst p) i\<bar> > 1 / 100")
    case True
    have step: "process_step rnd i p = spec_run_band_stereo rnd i p"
      using True by (cases p) (simp add: process_step_def spec_run_band_stereo_def split: prod.splits)
    have "fold (process_step rnd) (i # is) p = fold (process_step rnd) is (spec_run_band_stereo rnd i p)"
      by (simp only: fold_simps step)
    also have "\<dots> = fold (spec_run_band_stereo rnd)
        (filter (\<lambda>j. \<bar>gains (fst (spec_run_band_stereo rnd i p)) j\<bar> > 1 / 100) is) (spec_run_band_stereo rnd i p)"
      by (rule Cons.IH)
    also have "\<dots> = fold (spec_run_band_stereo rnd) (filter (\<lambda>j. \<bar>gains (fst p) j\<bar> > 1 / 100) (i # is)) p"
      using True by (simp only: spec_run_band_stereo_gains filter.simps if_True fold_simps)
    finally show ?thesis .
  next
    case False
    have step: "process_step rnd i p = p"
      using False by (cases p) (simp add: process_step_def)
    have "fold (process_step rnd) (i # is) p = fold (process_step rnd) is p"
      by (simp only: fold_simps step)
    also have "\<dots> = fold (spec_run_band_stereo rnd) (filter (\<lambda>j. \<bar>gains (fst p) j\<bar> > 1 / 100) is) p"
      by (rule Cons.IH)
    also have "\<dots> = fold (spec_run_band_stereo rnd) (filter (\<lambda>j. \<bar>gains (fst p) j\<bar> > 1 / 100) (i # is)) p"
      using False by (simp only: filter.simps if_False)
    finally show ?thesis .
  qed
qed

text \<open>
  C6. Without bypass, \<open>processMono\<close> and \<open>process\<close> run the sample through exactly the
  bands whose absolute gain exceeds 0.01 dB, in the order of the band index. In particular,
  when every band has an absolute gain of at most 0.01 dB, \<open>processMono\<close> returns its input
  and the processor (with all delay state) unchanged.
\<close>

theorem process_runs_active_bands_in_order:
  "\<not> bypass s \<Longrightarrow>
     processMono rnd s input = fold (spec_run_band_mono rnd) (spec_active_bands s) (s, input) \<and>
     process rnd s left right =
       fold (spec_run_band_stereo rnd) (spec_active_bands s) (s, left, right) \<and>
     ((\<forall>i < 5. \<bar>gains s i\<bar> \<le> 1 / 100) \<longrightarrow> processMono rnd s input = (s, input))"
proof -
  assume nb: "\<not> bypass s"
  have m: "processMono rnd s input =
      fold (spec_run_band_mono rnd) (spec_active_bands s) (s, input)"
    using nb fold_processMono_step [of rnd band_indices "(s, input)"]
    by (simp only: processMono_def spec_active_bands_def band_indices_eq if_False fst_conv)
  have st: "process rnd s left right =
      fold (spec_run_band_stereo rnd) (spec_active_bands s) (s, left, right)"
    using nb fold_process_step [of rnd band_indices "(s, left, right)"]
    by (simp only: process_def spec_active_bands_def band_indices_eq if_False fst_conv)
  have flat: "(\<forall>i < 5. \<bar>gains s i\<bar> \<le> 1 / 100) \<longrightarrow> spec_active_bands s = []"
    unfolding spec_active_bands_def filter_empty_conv by fastforce
  show ?thesis using m st flat by simp
qed

theorem process_runs_active_bands_in_order_witness:
  "\<not> bypass EQProcessor_new \<and>
   processMono (\<lambda>x. x) EQProcessor_new 1 = (EQProcessor_new, 1) \<and>
   spec_active_bands (setBandGain 2 6 EQProcessor_new) = [2] \<and>
   processMono (\<lambda>x. x) (setBandGain 2 6 EQProcessor_new) 1 =
     spec_run_band_mono (\<lambda>x. x) 2 (setBandGain 2 6 EQProcessor_new, 1)"
  using process_runs_active_bands_in_order [of EQProcessor_new "\<lambda>x. x" 1 1 1]
    process_runs_active_bands_in_order [of "setBandGain 2 6 EQProcessor_new" "\<lambda>x. x" 1 1 1]
  by (simp add: EQProcessor_new_def setBandGain_def updateFilter_def NUM_BANDS_def
      MIN_GAIN_def MAX_GAIN_def spec_active_bands_def)

subsection \<open>Persisted state\<close>

lemma getState_layout: "getState (Some []) s = (kResultOk, Some (spec_layout s))"
  by (simp add: getState_def spec_layout_def band_indices_eq getState_band_def writeInt32_def
      writeDouble_def getBandGain_def getBandFrequency_def getBandQ_def NUM_BANDS_def isBypassed_def)

lemma gains_updateFilter [simp]: "gains (updateFilter b s) = gains s"
  and frequencies_updateFilter [simp]: "frequencies (updateFilter b s) = frequencies s"
  and qFactors_updateFilter [simp]: "qFactors (updateFilter b s) = qFactors s"
  and bypass_updateFilter [simp]: "bypass (updateFilter b s) = bypass s"
  and sampleRate_updateFilter [simp]: "sampleRate (updateFilter b s) = sampleRate s"
  and filters_updateFilter_other: "c \<noteq> b \<Longrightarrow> filters (updateFilter b s) c = filters s c"
  by (simp_all add: updateFilter_def)

lemma apply_band_other:
  "c \<noteq> band \<Longrightarrow>
     gains (apply_band band g f q s) c = gains s c \<and>
     frequencies (apply_band band g f q s) c = frequencies s c \<and>
     qFactors (apply_band band g f q s) c = qFactors s c \<and>
     filters (apply_band band g f q s) c = filters s c"
  by (simp add: apply_band_def setBandGain_def setBandFrequency_def setBandQ_def
      filters_updateFilter_other)

lemma apply_band_frame:
  "bypass (apply_band band g f q s) = bypass s \<and> sampleRate (apply_band band g f q s) = sampleRate s"
  by (simp add: apply_band_def setBandGain_def setBandFrequency_def setBandQ_def)

lemma apply_band_same:
  "band < 5 \<Longrightarrow>
     gains (apply_band band g f q s) band = max MIN_GAIN (min MAX_GAIN g) \<and>
     frequencies (apply_band band g f q s) band = max MIN_FREQ (min MAX_FREQ f) \<and>
     qFactors (apply_band band g f q s) band = max MIN_Q (min MAX_Q q)"
  by (simp add: apply_band_def setBandGain_def setBandFrequency_def setBandQ_def NUM_BANDS_def)

lemma clamp_id: "lo \<le> v \<Longrightarrow> v \<le> hi \<Longrightarrow> max lo (min hi v) = (v::real)"
  by simp

text \<open>
  C2. For every equalizer state with its five bands in their domains, \<open>getState\<close> writes
  the 17 fields of the layout (version 1, then gain, frequency and Q per band, then the
  bypass flag), and \<open>setState\<close> on that stream, applied to any processor, succeeds and
  reproduces the same gain, frequency and Q of every band and the same bypass flag.
\<close>

theorem state_round_trip:
  assumes "in_domain s"
  shows "getState (Some []) s = (kResultOk, Some (spec_layout s)) \<and>
         fst (setState (Some (spec_layout s)) s0) = kResultOk \<and>
         (\<forall>b < 5. gains (snd (setState (Some (spec_layout s)) s0)) b = gains s b \<and>
                  frequencies (snd (setState (Some (spec_layout s)) s0)) b = frequencies s b \<and>
                  qFactors (snd (setState (Some (spec_layout s)) s0)) b = qFactors s b) \<and>
         bypass (snd (setState (Some (spec_layout s)) s0)) = bypass s"
proof -
  define t where "t = apply_band 4 (gains s 4) (frequencies s 4) (qFactors s 4)
     (apply_band 3 (gains s 3) (frequencies s 3) (qFactors s 3)
       (apply_band 2 (gains s 2) (frequencies s 2) (qFactors s 2)
         (apply_band 1 (gains s 1) (frequencies s 1) (qFactors s 1)
           (apply_band 0 (gains s 0) (frequencies s 0) (qFactors s 0) s0))))"
  have run: "setState (Some (spec_layout s)) s0 = (kResultOk, setBypass (bypass s) t)"
    by (simp add: setState_def spec_layout_def readInt32_def readDouble_def band_indices_eq
        t_def apply_band_def)
  have dom: "\<And>b. b < 5 \<Longrightarrow>
      max MIN_GAIN (min MAX_GAIN (gains s b)) = gains s b \<and>
      max MIN_FREQ (min MAX_FREQ (frequencies s b)) = frequencies s b \<and>
      max MIN_Q (min MAX_Q (qFactors s b)) = qFactors s b"
  proof -
    fix b :: nat assume "b < 5"
    then have "b \<in> set band_indices" by (simp add: band_indices_def NUM_BANDS_def)
    with assms show "max MIN_GAIN (min MAX_GAIN (gains s b)) = gains s b \<and>
      max MIN_FREQ (min MAX_FREQ (frequencies s b)) = frequencies s b \<and>
      max MIN_Q (min MAX_Q (qFactors s b)) = qFactors s b"
      unfolding in_domain_def by (simp add: clamp_id)
  qed
  have vals: "gains t b = gains s b \<and> frequencies t b = frequencies s b \<and>
      qFactors t b = qFactors s b" if "b < 5" for b
  proof -
    from that consider "b = 0" | "b = 1" | "b = 2" | "b = 3" | "b = 4" by linarith
    then show ?thesis
    proof cases
      case 1 then show ?thesis unfolding t_def using dom [of 0]
        by (simp add: apply_band_other apply_band_same)
    next
      case 2 then show ?thesis unfolding t_def using dom [of 1]
        by (simp add: apply_band_other apply_band_same)
    next
      case 3 then show ?thesis unfolding t_def using dom [of 2]
        by (simp add: apply_band_other apply_band_same)
    next
      case 4 then show ?thesis unfolding t_def using dom [of 3]
        by (simp add: apply_band_other apply_band_same)
    next
      case 5 then show ?thesis unfolding t_def using dom [of 4]
        by (simp add: apply_band_other apply_band_same)
    qed
  qed
  show ?thesis
    using vals by (simp add: getState_layout run setBypass_def)
qed

lemma in_domain_new: "in_domain EQProcessor_new"
  by (simp add: in_domain_def band_indices_eq EQProcessor_new_def DEFAULT_FREQUENCIES_def
      MIN_GAIN_def MAX_GAIN_def MIN_FREQ_def MAX_FREQ_def MIN_Q_def MAX_Q_def DEFAULT_Q_def)

theorem state_round_trip_witness:
  "in_domain EQProcessor_new \<and>
   fst (setState (Some (spec_layout EQProcessor_new)) (setBypass True (setBandGain 2 6 EQProcessor_new)))
     = kResultOk \<and>
   gains (snd (setState (Some (spec_layout EQProcessor_new))
            (setBypass True (setBandGain 2 6 EQProcessor_new)))) 2 = 0 \<and>
   \<not> bypass (snd (setState (Some (spec_layout EQProcessor_new))
            (setBypass True (setBandGain 2 6 EQProcessor_new))))"
proof -
  note rt = state_round_trip [OF in_domain_new, of "setBypass True (setBandGain 2 6 EQProcessor_new)"]
  have g: "gains EQProcessor_new 2 = 0" and b: "\<not> bypass EQProcessor_new"
    by (simp_all add: EQProcessor_new_def)
  from rt have "gains (snd (setState (Some (spec_layout EQProcessor_new))
            (setBypass True (setBandGain 2 6 EQProcessor_new)))) 2 = gains EQProcessor_new 2"
    by simp
  with rt g b show ?thesis by (simp add: in_domain_new)
qed

text \<open>
  C3 as stated fails: on a stream that ends after the three values of band 0, \<open>setState\<close>
  reports failure and has already changed band 0.
\<close>

theorem setState_partial_read_counterexample:
  "fst (setState (Some [Int32 1, Double 6, Double 100, Double 1]) EQProcessor_new) = kResultFalse \<and>
   snd (setState (Some [Int32 1, Double 6, Double 100, Double 1]) EQProcessor_new) \<noteq> EQProcessor_new"
proof -
  have run: "setState (Some [Int32 1, Double 6, Double 100, Double 1]) EQProcessor_new
        = (kResultFalse, apply_band 0 6 100 1 EQProcessor_new)"
    by (simp add: setState_def readInt32_def readDouble_def band_indices_eq apply_band_def)
  have "gains (apply_band 0 6 100 1 EQProcessor_new) 0 = 6"
    using apply_band_same [of 0 6 100 1 EQProcessor_new] by (simp add: MIN_GAIN_def MAX_GAIN_def)
  moreover have "gains EQProcessor_new 0 = 0"
    by (simp add: EQProcessor_new_def)
  ultimately have "apply_band 0 6 100 1 EQProcessor_new \<noteq> EQProcessor_new"
    by auto
  with run show ?thesis by simp
qed

lemma bands_readable_le: "bands_readable n st \<le> n"
  by (induction n st rule: bands_readable.induct) simp_all

lemma setState_loop_fail_head:
  "bands_readable (Suc n) st = 0 \<Longrightarrow> setState_loop (k # ks) st s = Inl s"
  by (cases "(Suc n, st)" rule: bands_readable.cases)
    (auto simp: readDouble_def split: list.splits field.splits)

lemma bands_readable_Suc_cases:
  obtains (triple) g f q st' where "st = Double g # Double f # Double q # st'"
  | (short) "\<And>n. bands_readable (Suc n) st = 0"
proof (cases st)
  case Nil then show ?thesis using short by simp
next
  case (Cons fd1 r1)
  show ?thesis
  proof (cases fd1)
    case (Int32 v) then show ?thesis using short Cons by simp
  next
    case (Double g)
    show ?thesis
    proof (cases r1)
      case Nil then show ?thesis using short Cons Double by simp
    next
      case c2: (Cons fd2 r2)
      show ?thesis
      proof (cases fd2)
        case (Int32 v) then show ?thesis using short Cons Double c2 by simp
      next
        case d2: (Double f)
        show ?thesis
        proof (cases r2)
          case Nil then show ?thesis using short Cons Double c2 d2 by simp
        next
          case c3: (Cons fd3 r3)
          show ?thesis
          proof (cases fd3)
            case (Int32 v) then show ?thesis using short Cons Double c2 d2 c3 by simp
          next
            case d3: (Double q)
            show ?thesis using triple [of g f q r3] Cons Double c2 d2 c3 d3 by simp
          qed
        qed
      qed
    qed
  qed
qed

lemma setState_loop_upt:
  "case setState_loop [k ..< k + n] st s of
     Inl t \<Rightarrow> bands_readable n st < n \<and> loop_frame k (bands_readable n st) st s t
   | Inr (st', t) \<Rightarrow> bands_readable n st = n \<and> st' = drop (3 * n) st \<and> loop_frame k n st s t"
proof (induction n arbitrary: k st s)
  case 0
  show ?case by (simp add: loop_frame_def)
next
  case (Suc n)
  have upt: "[k ..< k + Suc n] = k # [Suc k ..< Suc k + n]"
    by (simp add: upt_rec)
  show ?case
  proof (cases st rule: bands_readable_Suc_cases)
    case short
    then have "setState_loop [k ..< k + Suc n] st s = Inl s"
      unfolding upt by (rule setState_loop_fail_head)
    then show ?thesis using short [of n] by (simp add: loop_frame_def)
  next
    case (triple g f q st')
    define s1 where "s1 = apply_band k g f q s"
    have step: "setState_loop [k ..< k + Suc n] st s = setState_loop [Suc k ..< Suc k + n] st' s1"
      unfolding upt by (simp add: triple readDouble_def s1_def apply_band_def)
    have br: "bands_readable (Suc n) st = Suc (bands_readable n st')"
      by (simp add: triple)
    have "3 * Suc n = Suc (Suc (Suc (3 * n)))" by simp
    then have d3: "drop (3 * Suc n) st = drop (3 * n) st'"
      by (simp only: triple drop_Suc_Cons)
    have fr: "loop_frame k (Suc m) st s t" if "loop_frame (Suc k) m st' s1 t" for m t
    proof -
      have outer: "\<forall>c. c < Suc k \<or> Suc k + m \<le> c \<longrightarrow>
          gains t c = gains s1 c \<and> frequencies t c = frequencies s1 c \<and>
          qFactors t c = qFactors s1 c \<and> filters t c = filters s1 c"
        using that unfolding loop_frame_def by blast
      have inner: "\<forall>c. Suc k \<le> c \<and> c < Suc k + m \<and> c < 5 \<longrightarrow>
          gains t c = max MIN_GAIN (min MAX_GAIN (the_double (st' ! (3 * (c - Suc k))))) \<and>
          frequencies t c = max MIN_FREQ (min MAX_FREQ (the_double (st' ! (3 * (c - Suc k) + 1)))) \<and>
          qFactors t c = max MIN_Q (min MAX_Q (the_double (st' ! (3 * (c - Suc k) + 2))))"
        using that unfolding loop_frame_def by blast
      have p1: "bypass t = bypass s \<and> sampleRate t = sampleRate s"
        using that apply_band_frame [of k g f q s] by (simp add: loop_frame_def s1_def)
      have p2: "gains t c = gains s c \<and> frequencies t c = frequencies s c \<and>
          qFactors t c = qFactors s c \<and> filters t c = filters s c"
        if c: "c < k \<or> k + Suc m \<le> c" for c
      proof -
        from c have ck: "c \<noteq> k" and c': "c < Suc k \<or> Suc k + m \<le> c" by auto
        from outer c' have "gains t c = gains s1 c \<and> frequencies t c = frequencies s1 c \<and>
          qFactors t c = qFactors s1 c \<and> filters t c = filters s1 c"
          by blast
        then show ?thesis
          using apply_band_other [OF ck, of g f q s] by (simp add: s1_def)
      qed
      have p3: "gains t c = max MIN_GAIN (min MAX_GAIN (the_double (st ! (3 * (c - k))))) \<and>
          frequencies t c = max MIN_FREQ (min MAX_FREQ (the_double (st ! (3 * (c - k) + 1)))) \<and>
          qFactors t c = max MIN_Q (min MAX_Q (the_double (st ! (3 * (c - k) + 2))))"
        if c: "k \<le> c \<and> c < k + Suc m \<and> c < 5" for c
      proof (cases "c = k")
        case True
        have "c < Suc k \<or> Suc k + m \<le> c" using True by simp
        with outer have "gains t c = gains s1 c \<and> frequencies t c = frequencies s1 c \<and>
          qFactors t c = qFactors s1 c"
          by blast
        then show ?thesis
          using True c apply_band_same [of k g f q s] by (simp add: s1_def triple)
      next
        case False
        then have c': "Suc k \<le> c \<and> c < Suc k + m \<and> c < 5" using c by auto
        then obtain d where d: "c - k = Suc d" "c - Suc k = d"
          by (metis Suc_diff_le diff_Suc_Suc)
        from inner c'
        have "gains t c = max MIN_GAIN (min MAX_GAIN (the_double (st' ! (3 * (c - Suc k))))) \<and>
          frequencies t c = max MIN_FREQ (min MAX_FREQ (the_double (st' ! (3 * (c - Suc k) + 1)))) \<and>
          qFactors t c = max MIN_Q (min MAX_Q (the_double (st' ! (3 * (c - Suc k) + 2))))"
          by blast
        then show ?thesis by (simp add: d triple)
      qed
      show ?thesis
        unfolding loop_frame_def using p1 p2 p3 by simp
    qed
    show ?thesis
    proof (cases "setState_loop [Suc k ..< Suc k + n] st' s1")
      case (Inl t)
      with Suc.IH [where k = "Suc k" and st = st' and s = s1]
      have "bands_readable n st' < n" "loop_frame (Suc k) (bands_readable n st') st' s1 t"
        by simp_all
      then have "bands_readable (Suc n) st < Suc n"
        "loop_frame k (bands_readable (Suc n) st) st s t"
        using fr [of "bands_readable n st'" t] by (simp_all add: br)
      moreover have "setState_loop [k ..< k + Suc n] st s = Inl t"
        using step Inl by (simp only:)
      ultimately show ?thesis by (simp only: sum.case)
    next
      case (Inr p)
      obtain st2 t where p: "p = (st2, t)" by (cases p)
      with Suc.IH [where k = "Suc k" and st = st' and s = s1] Inr
      have "bands_readable n st' = n" "st2 = drop (3 * n) st'" "loop_frame (Suc k) n st' s1 t"
        by simp_all
      then have "bands_readable (Suc n) st = Suc n" "st2 = drop (3 * Suc n) st"
        "loop_frame k (Suc n) st s t"
        using fr [of n t] d3 by (simp_all add: br)
      moreover have "setState_loop [k ..< k + Suc n] st s = Inr (st2, t)"
        using step Inr p by (simp only:)
      ultimately show ?thesis by (simp only: sum.case prod.case)
    qed
  qed
qed

lemma band_indices_upt: "band_indices = [0 ..< 0 + 5]"
  by (simp add: band_indices_def NUM_BANDS_def)

text \<open>
  C3, amended. \<open>setState\<close> returns failure exactly on the malformed streams. A failed call
  never changes the bypass flag and leaves every band from the first incompletely read one
  onwards as it was; the bands whose three values were read before the failure hold the
  clamped values read. The state is exactly as before when not even band 0 was read
  completely.
\<close>

theorem setState_failure_effect:
  "(fst (setState state s) = kResultFalse \<longleftrightarrow> spec_malformed state) \<and>
   (spec_malformed state \<longrightarrow>
      bypass (snd (setState state s)) = bypass s \<and>
      (\<forall>c. spec_bands_read state \<le> c \<longrightarrow>
         gains (snd (setState state s)) c = gains s c \<and>
         frequencies (snd (setState state s)) c = frequencies s c \<and>
         qFactors (snd (setState state s)) c = qFactors s c \<and>
         filters (snd (setState state s)) c = filters s c) \<and>
      (\<forall>c < spec_bands_read state.
         gains (snd (setState state s)) c =
           max MIN_GAIN (min MAX_GAIN (fst (spec_band_fields state c))) \<and>
         frequencies (snd (setState state s)) c =
           max MIN_FREQ (min MAX_FREQ (fst (snd (spec_band_fields state c)))) \<and>
         qFactors (snd (setState state s)) c =
           max MIN_Q (min MAX_Q (snd (snd (spec_band_fields state c))))) \<and>
      (spec_bands_read state = 0 \<longrightarrow> snd (setState state s) = s))"
proof (cases state)
  case None
  then show ?thesis
    by (simp add: setState_def spec_malformed_def spec_bands_read_def)
next
  case (Some st)
  show ?thesis
  proof (cases "readInt32 st")
    case None
    then have nohead: "\<And>v r. st \<noteq> Int32 v # r"
      by (auto simp: readInt32_def)
    have "spec_bands_read state = 0" "spec_malformed state"
      using nohead Some
      by (auto simp: spec_bands_read_def spec_malformed_def spec_well_formed_def
          split: list.splits field.splits)
    moreover have "setState state s = (kResultFalse, s)"
      using None Some by (simp add: setState_def)
    ultimately show ?thesis by simp
  next
    case (Some a)
    obtain v r where a: "a = (v, r)" by (cases a)
    have st: "st = Int32 v # r"
      using Some a by (auto simp: readInt32_def split: list.splits field.splits)
    have br: "spec_bands_read state = bands_readable 5 r"
      using \<open>state = Some st\<close> st by (simp add: spec_bands_read_def)
    have mal: "spec_malformed state \<longleftrightarrow>
       \<not> (bands_readable 5 r = 5 \<and> (case drop 15 r of Int32 b # _ \<Rightarrow> True | _ \<Rightarrow> False))"
      using \<open>state = Some st\<close> st by (simp add: spec_malformed_def spec_well_formed_def)
    have fields: "spec_band_fields state c =
        (the_double (r ! (3 * c)), the_double (r ! (3 * c + 1)), the_double (r ! (3 * c + 2)))" for c
      using \<open>state = Some st\<close> st by (simp add: spec_band_fields_def)
    note loop = setState_loop_upt [where k = 0 and n = 5 and st = r and s = s]
    show ?thesis
    proof (cases "setState_loop band_indices r s")
      case (Inl t)
      have run: "setState state s = (kResultFalse, t)"
        using \<open>state = Some st\<close> Some a Inl by (simp add: setState_def)
      from loop Inl have lt: "bands_readable 5 r < 5" and fr: "loop_frame 0 (bands_readable 5 r) r s t"
        by (simp_all add: band_indices_upt)
      have m: "spec_malformed state" using lt mal by simp
      have le5: "c < bands_readable 5 r \<Longrightarrow> c < 5" for c using lt by simp
      show ?thesis
        using fr m le5 unfolding loop_frame_def
        by (simp add: run br fields)
    next
      case (Inr p)
      obtain st2 t where p: "p = (st2, t)" by (cases p)
      from loop Inr p have eq: "bands_readable 5 r = 5" and st2: "st2 = drop 15 r"
        and fr: "loop_frame 0 5 r s t"
        by (simp_all add: band_indices_upt)
      show ?thesis
      proof (cases "readInt32 st2")
        case None
        have run: "setState state s = (kResultFalse, t)"
          using \<open>state = Some st\<close> Some a Inr p None by (simp add: setState_def)
        have m: "spec_malformed state"
          using None st2 eq mal by (auto simp: readInt32_def split: list.splits field.splits)
        show ?thesis
          using fr m unfolding loop_frame_def
          by (simp add: run br fields eq)
      next
        case (Some b)
        have run: "fst (setState state s) = kResultOk"
          using \<open>state = Some st\<close> \<open>readInt32 st = Some a\<close> a Inr p Some
          by (simp add: setState_def split: prod.splits)
        have m: "\<not> spec_malformed state"
          using Some st2 eq mal by (auto simp: readInt32_def split: list.splits field.splits)
        show ?thesis using run m by simp
      qed
    qed
  qed
qed

theorem setState_failure_effect_witness:
  "spec_malformed (Some [Int32 1, Double 6, Double 100, Double 1]) \<and>
   spec_bands_read (Some [Int32 1, Double 6, Double 100, Double 1]) = 1 \<and>
   fst (setState (Some [Int32 1, Double 6, Double 100, Double 1]) EQProcessor_new) = kResultFalse \<and>
   gains (snd (setState (Some [Int32 1, Double 6, Double 100, Double 1]) EQProcessor_new)) 0 = 6 \<and>
   gains (snd (setState (Some [Int32 1, Double 6, Double 100, Double 1]) EQProcessor_new)) 1 = 0 \<and>
   spec_malformed (Some [Int32 1, Double 6]) \<and>
   snd (setState (Some [Int32 1, Double 6]) EQProcessor_new) = EQProcessor_new"
proof -
  let ?st = "Some [Int32 1, Double 6, Double 100, Double 1]"
  have m: "spec_malformed ?st" and r: "spec_bands_read ?st = 1"
    by (simp_all add: spec_malformed_def spec_well_formed_def spec_bands_read_def eval_nat_numeral)
  have m2: "spec_malformed (Some [Int32 1, Double 6])"
    and r2: "spec_bands_read (Some [Int32 1, Double 6]) = 0"
    by (simp_all add: spec_malformed_def spec_well_formed_def spec_bands_read_def eval_nat_numeral)
  have f: "fst (spec_band_fields ?st 0) = 6"
    by (simp add: spec_band_fields_def)
  have g: "gains EQProcessor_new 1 = 0"
    by (simp add: EQProcessor_new_def)
  note a = setState_failure_effect [of ?st EQProcessor_new]
  note b = setState_failure_effect [of "Some [Int32 1, Double 6]" EQProcessor_new]
  from a m r have "gains (snd (setState ?st EQProcessor_new)) 0 =
      max MIN_GAIN (min MAX_GAIN (fst (spec_band_fields ?st 0)))"
    by simp
  then have g0: "gains (snd (setState ?st EQProcessor_new)) 0 = 6"
    by (simp add: f MIN_GAIN_def MAX_GAIN_def)
  from a m r have g1: "gains (snd (setState ?st EQProcessor_new)) 1 = gains EQProcessor_new 1"
    by simp
  from a m have k: "fst (setState ?st EQProcessor_new) = kResultFalse" by simp
  from b m2 r2 have u: "snd (setState (Some [Int32 1, Double 6]) EQProcessor_new) = EQProcessor_new"
    by simp
  show ?thesis using m r k g0 g1 g m2 u by simp
qed

subsection \<open>The transform engine\<close>

lemma bitrev_less: "bitrev k i < 2 ^ k"
proof (induction k arbitrary: i)
  case 0
  show ?case by simp
next
  case (Suc k)
  define a where "a = 2 ^ k * (i mod 2)"
  have "a \<le> 2 ^ k"
    unfolding a_def by (cases "even i") (simp_all add: mod_2_eq_odd)
  moreover have "bitrev (Suc k) i = a + bitrev k (i div 2)"
    by (simp add: a_def)
  moreover have "(2::nat) ^ Suc k = 2 ^ k + 2 ^ k"
    by simp
  ultimately show ?case
    using Suc [of "i div 2"] by linarith
qed

lemma bitrev_even: "bitrev (Suc k) (2 * b) = bitrev k b"
  by simp

lemma bitrev_odd: "bitrev (Suc k) (2 * b + 1) = 2 ^ k + bitrev k b"
  by simp

text \<open>Peeling the top bit instead of the lowest one.\<close>

lemma bitrev_top:
  "i < 2 ^ Suc k \<Longrightarrow> bitrev (Suc k) i = 2 * bitrev k (i mod 2 ^ k) + i div 2 ^ k"
proof (induction k arbitrary: i)
  case 0
  then show ?case by simp
next
  case (Suc k)
  have half: "i div 2 < 2 ^ Suc k"
    using Suc.prems by simp
  have a: "(i mod 2 ^ Suc k) mod 2 = i mod 2"
    by (simp add: mod_mod_cancel)
  have b: "(i mod 2 ^ Suc k) div 2 = (i div 2) mod 2 ^ k"
    by (metis div_exp_mod_exp_eq power_one_right Suc_eq_plus1 add.commute)
  have c: "(i div 2) div 2 ^ k = i div 2 ^ Suc k"
    by (simp add: div_mult2_eq)
  have "bitrev (Suc (Suc k)) i = 2 ^ Suc k * (i mod 2) + bitrev (Suc k) (i div 2)"
    by simp
  also have "\<dots> = 2 ^ Suc k * (i mod 2) + (2 * bitrev k ((i div 2) mod 2 ^ k) + (i div 2) div 2 ^ k)"
    by (simp only: Suc.IH [OF half])
  also have "\<dots> = 2 * (2 ^ k * (i mod 2) + bitrev k ((i div 2) mod 2 ^ k)) + i div 2 ^ Suc k"
    by (simp add: c)
  also have "\<dots> = 2 * bitrev (Suc k) (i mod 2 ^ Suc k) + i div 2 ^ Suc k"
    by (simp only: bitrev.simps a b)
  finally show ?case .
qed

lemma bitrev_bitrev: "i < 2 ^ k \<Longrightarrow> bitrev k (bitrev k i) = i"
proof (induction k arbitrary: i)
  case 0
  then show ?case by simp
next
  case (Suc k)
  define t where "t = i div 2 ^ k"
  define r where "r = bitrev k (i mod 2 ^ k)"
  have t: "t < 2" using Suc.prems by (simp add: t_def less_mult_imp_div_less)
  have top: "bitrev (Suc k) i = 2 * r + t"
    using bitrev_top [OF Suc.prems] by (simp add: t_def r_def)
  have "(2 * r + t) mod 2 = t" "(2 * r + t) div 2 = r"
    using t by simp_all
  then have "bitrev (Suc k) (2 * r + t) = 2 ^ k * t + bitrev k r"
    by simp
  also have "bitrev k r = i mod 2 ^ k"
    unfolding r_def by (rule Suc.IH) simp
  also have "2 ^ k * t + i mod 2 ^ k = i"
    by (simp add: t_def)
  finally show ?case by (simp only: top)
qed

declare bitrev.simps(2) [simp del]

lemma bitrev_inj: "i < 2 ^ k \<Longrightarrow> j < 2 ^ k \<Longrightarrow> bitrev k i = bitrev k j \<Longrightarrow> i = j"
  by (metis bitrev_bitrev)

text \<open>The inner loop of the permutation turns the reversal of \<open>i\<close> into that of \<open>i + 1\<close>.\<close>

lemma bitrev_while_ge: "K \<le> j \<Longrightarrow> bitrev_while K j = bitrev_while (K div 2) (j - K)"
  by (subst bitrev_while.simps) simp

lemma bitrev_while_less: "j < K \<Longrightarrow> bitrev_while K j = Some (K, j)"
  by (subst bitrev_while.simps) simp

lemma bitrev_while_increment:
  "i + 1 < 2 ^ Suc k \<Longrightarrow>
     \<exists>k' j'. bitrev_while (2 ^ k) (bitrev (Suc k) i) = Some (k', j') \<and>
             j' + k' = bitrev (Suc k) (i + 1)"
proof (induction k arbitrary: i)
  case 0
  then have "i = 0" by simp
  then show ?case by (simp add: bitrev_while.simps bitrev.simps(2))
next
  case (Suc k)
  show ?case
  proof (cases "even i")
    case True
    then obtain b where b: "i = 2 * b" by (elim evenE)
    have lt: "bitrev (Suc (Suc k)) i < 2 ^ Suc k"
      using bitrev_less [of "Suc k" b] by (simp add: b bitrev_even)
    have "bitrev_while (2 ^ Suc k) (bitrev (Suc (Suc k)) i) = Some (2 ^ Suc k, bitrev (Suc (Suc k)) i)"
      using lt by (rule bitrev_while_less)
    moreover have "bitrev (Suc (Suc k)) (i + 1) = bitrev (Suc (Suc k)) i + 2 ^ Suc k"
      unfolding b by (simp only: bitrev_even bitrev_odd)
    ultimately show ?thesis by simp
  next
    case False
    then obtain b where b: "i = 2 * b + 1" by (elim oddE)
    have bk: "b + 1 < 2 ^ Suc k" using Suc.prems by (simp add: b)
    have r: "bitrev (Suc (Suc k)) i = 2 ^ Suc k + bitrev (Suc k) b"
      unfolding b by (rule bitrev_odd)
    have "bitrev_while (2 ^ Suc k) (2 ^ Suc k + bitrev (Suc k) b)
        = bitrev_while (2 ^ Suc k div 2) (2 ^ Suc k + bitrev (Suc k) b - 2 ^ Suc k)"
      by (rule bitrev_while_ge) simp
    then have "bitrev_while (2 ^ Suc k) (bitrev (Suc (Suc k)) i)
        = bitrev_while (2 ^ k) (bitrev (Suc k) b)"
      by (simp only: r add_diff_cancel_left' power_Suc nonzero_mult_div_cancel_left)
    moreover have "bitrev (Suc (Suc k)) (i + 1) = bitrev (Suc k) (b + 1)"
    proof -
      have "i + 1 = 2 * (b + 1)" by (simp add: b)
      then show ?thesis by (simp only: bitrev_even)
    qed
    ultimately show ?thesis using Suc.IH [OF bk] by simp
  qed
qed

lemma bitrev_body_step:
  assumes n: "n = 2 ^ Suc k" and m: "m + 1 < n" and inv: "bitrev_done (Suc k) x m data"
  shows "\<exists>data'. bitrev_body n m (data, bitrev (Suc k) m) = Some (data', bitrev (Suc k) (m + 1)) \<and>
                 bitrev_done (Suc k) x (m + 1) data'"
proof -
  obtain j where bm: "bitrev (Suc k) m = j" by simp
  define data' where "data' = (if m < j then data[m := data ! j, j := data ! m] else data)"
  have jn: "j < n" unfolding n using bitrev_less [of "Suc k" m] bm by simp
  have mn: "m < n" using m by simp
  have len: "length data = n" using inv by (simp add: bitrev_done_def n)
  have at: "data ! p = (if p < m \<or> bitrev (Suc k) p < m then x ! bitrev (Suc k) p else x ! p)"
    if "p < n" for p
    using inv that unfolding bitrev_done_def n by blast
  have bj: "bitrev (Suc k) j = m"
    using bitrev_bitrev [of m "Suc k"] mn bm by (simp add: n)
  from bitrev_while_increment [of m k] m n
  obtain k' j' where w: "bitrev_while (2 ^ k) j = Some (k', j')"
    and w': "j' + k' = bitrev (Suc k) (m + 1)"
    unfolding bm by auto
  have half: "n div 2 = 2 ^ k" by (simp add: n)
  have "bitrev_body n m (data, j) = Some (data', j' + k')"
    unfolding bitrev_body_def data'_def by (simp add: half w)
  then have run: "bitrev_body n m (data, bitrev (Suc k) m) = Some (data', bitrev (Suc k) (m + 1))"
    by (simp only: bm w')
  have len': "length data' = n" by (simp add: data'_def len)
  have at': "data' ! p = (if p < m + 1 \<or> bitrev (Suc k) p < m + 1 then x ! bitrev (Suc k) p else x ! p)"
    if p: "p < n" for p
  proof -
    have pp: "bitrev (Suc k) (bitrev (Suc k) p) = p"
      using p by (intro bitrev_bitrev) (simp only: n)
    have inj: "bitrev (Suc k) p \<noteq> m" if "p \<noteq> j"
    proof
      assume "bitrev (Suc k) p = m"
      then have "bitrev (Suc k) (bitrev (Suc k) p) = j" by (simp only: bm)
      with pp that show False by simp
    qed
    have other: "(p < m + 1 \<or> bitrev (Suc k) p < m + 1) \<longleftrightarrow> (p < m \<or> bitrev (Suc k) p < m)"
      if "p \<noteq> m" "p \<noteq> j"
      using that inj [OF that(2)] by linarith
    consider (lt) "m < j" | (eq) "m = j" | (gt) "j < m" by linarith
    then show ?thesis
    proof cases
      case lt
      have dj: "data ! j = x ! j"
        using at [OF jn] lt bj by simp
      have dm: "data ! m = x ! m"
        using at [OF mn] lt bm by simp
      consider "p = m" | "p = j" | "p \<noteq> m" "p \<noteq> j" by blast
      then show ?thesis
      proof cases
        case 1
        have "data' ! m = data ! j"
          using lt len mn by (simp add: data'_def nth_list_update)
        then show ?thesis using 1 dj bm by simp
      next
        case 2
        have "data' ! j = data ! m"
          using lt len jn by (simp add: data'_def nth_list_update)
        then show ?thesis using 2 dm bj by simp
      next
        case 3
        then have "data' ! p = data ! p"
          using lt by (simp add: data'_def)
        then show ?thesis using at [OF p] other [OF 3] by simp
      qed
    next
      case eq
      have d: "data' = data" using eq by (simp add: data'_def)
      show ?thesis
      proof (cases "p = m")
        case True
        then show ?thesis using at [OF p] eq d bm by simp
      next
        case False
        then have "p \<noteq> j" using eq by simp
        with False show ?thesis using at [OF p] d other by simp
      qed
    next
      case gt
      have d: "data' = data" using gt by (simp add: data'_def)
      consider "p = m" | "p = j" | "p \<noteq> m" "p \<noteq> j" by blast
      then show ?thesis
      proof cases
        case 1
        then show ?thesis using at [OF p] gt d bm by simp
      next
        case 2
        then show ?thesis using at [OF p] gt d bj by simp
      next
        case 3
        then show ?thesis using at [OF p] d other [OF 3] by simp
      qed
    qed
  qed
  have "bitrev_done (Suc k) x (m + 1) data'"
    unfolding bitrev_done_def using len' at' by (simp add: n)
  with run show ?thesis by blast
qed

lemma bitrev_for_upt:
  assumes n: "n = 2 ^ Suc k"
  shows "m + c < n \<Longrightarrow> bitrev_done (Suc k) x m data \<Longrightarrow>
     \<exists>data'. bitrev_for n [m ..< m + c] (data, bitrev (Suc k) m) = Some (data', bitrev (Suc k) (m + c)) \<and>
             bitrev_done (Suc k) x (m + c) data'"
proof (induction c arbitrary: m data)
  case 0
  then show ?case by simp
next
  case (Suc c)
  have upt: "[m ..< m + Suc c] = m # [Suc m ..< Suc m + c]"
    by (simp add: upt_rec)
  from Suc.prems have m1: "m + 1 < n" by simp
  from bitrev_body_step [OF n m1 Suc.prems(2)]
  obtain d1 where b: "bitrev_body n m (data, bitrev (Suc k) m) = Some (d1, bitrev (Suc k) (m + 1))"
    and i1: "bitrev_done (Suc k) x (m + 1) d1"
    by blast
  have "Suc m + c < n" using Suc.prems by simp
  from Suc.IH [OF this, of d1] i1
  obtain d2 where r: "bitrev_for n [Suc m ..< Suc m + c] (d1, bitrev (Suc k) (Suc m)) =
      Some (d2, bitrev (Suc k) (Suc m + c))"
    and i2: "bitrev_done (Suc k) x (Suc m + c) d2"
    by auto
  have "bitrev_for n [m ..< m + Suc c] (data, bitrev (Suc k) m) = Some (d2, bitrev (Suc k) (m + Suc c))"
    unfolding upt using b r by simp
  with i2 show ?case by auto
qed

lemma bitrev_zero: "bitrev k 0 = 0"
  by (induction k) (simp_all add: bitrev.simps(2))

lemma bitReversePermute_correct:
  assumes len: "length x = 2 ^ Suc k"
  shows "\<exists>y. bitReversePermute x = Some y \<and> length y = 2 ^ Suc k \<and>
             (\<forall>p < 2 ^ Suc k. y ! p = x ! bitrev (Suc k) p)"
proof -
  define n where "n = length x"
  have n: "n = 2 ^ Suc k" using len by (simp add: n_def)
  have start: "bitrev_done (Suc k) x 0 x"
    by (simp add: bitrev_done_def len)
  have "0 + (n - 1) < n" by (simp add: n)
  from bitrev_for_upt [OF n this start]
  obtain y where r: "bitrev_for n [0 ..< n - 1] (x, 0) = Some (y, bitrev (Suc k) (n - 1))"
    and d: "bitrev_done (Suc k) x (n - 1) y"
    by (auto simp: bitrev_zero)
  have run: "bitReversePermute x = Some y"
    using r by (simp add: bitReversePermute_def flip: n_def)
  have at: "y ! p = x ! bitrev (Suc k) p" if p: "p < 2 ^ Suc k" for p
  proof (cases "p < n - 1 \<or> bitrev (Suc k) p < n - 1")
    case True
    then show ?thesis using d p unfolding bitrev_done_def by simp
  next
    case False
    then have "p = n - 1" "bitrev (Suc k) p = n - 1"
      using p bitrev_less [of "Suc k" p] n by auto
    moreover have "y ! p = x ! p"
      using False d p unfolding bitrev_done_def by simp
    ultimately show ?thesis by simp
  qed
  have "length y = 2 ^ Suc k" using d by (simp add: bitrev_done_def)
  with run at show ?thesis by blast
qed

lemma butterfly_fold:
  assumes "m \<le> h" and "i + 2 * h \<le> length data"
  shows "\<exists>d. fold (butterfly (2 * h) i w) [0 ..< m] (data, 1) = (d, w ^ m) \<and>
             length d = length data \<and> (\<forall>p < length data. d ! p = bfly_val h w i m data p)"
  using assms(1)
proof (induction m)
  case 0
  show ?case by (auto simp: bfly_val_def)
next
  case (Suc m)
  then have mh: "m < h" by simp
  from Suc obtain d where f: "fold (butterfly (2 * h) i w) [0 ..< m] (data, 1) = (d, w ^ m)"
    and len: "length d = length data"
    and at: "\<And>p. p < length data \<Longrightarrow> d ! p = bfly_val h w i m data p"
    by auto
  define u where "u = d ! (i + m)"
  define t where "t = w ^ m * d ! (i + m + h)"
  define d' where "d' = d[i + m := u + t, i + m + h := u - t]"
  have in1: "i + m < length data" and in2: "i + m + h < length data"
    using mh assms(2) by simp_all
  have u: "u = data ! (i + m)"
    unfolding u_def using at [OF in1] mh by (simp add: bfly_val_def)
  have t: "t = w ^ m * data ! (i + m + h)"
    unfolding t_def using at [OF in2] mh by (simp add: bfly_val_def)
  have step: "butterfly (2 * h) i w m (d, w ^ m) = (d', w ^ Suc m)"
    by (simp add: butterfly_def Let_def d'_def u_def t_def)
  have run: "fold (butterfly (2 * h) i w) [0 ..< Suc m] (data, 1) = (d', w ^ Suc m)"
    by (simp add: f step)
  have len': "length d' = length data" by (simp add: d'_def len)
  have at': "d' ! p = bfly_val h w i (Suc m) data p" if p: "p < length data" for p
  proof -
    consider (a) "p = i + m" | (b) "p = i + m + h" | (c) "p \<noteq> i + m" "p \<noteq> i + m + h" by blast
    then show ?thesis
    proof cases
      case a
      have "d' ! p = u + t"
        using a mh in1 len by (simp add: d'_def nth_list_update)
      then show ?thesis using a u t by (simp add: bfly_val_def add.assoc)
    next
      case b
      have "d' ! p = u - t"
        using b in2 len by (simp add: d'_def nth_list_update)
      then show ?thesis using b u t mh by (simp add: bfly_val_def)
    next
      case c
      have "d' ! p = d ! p"
        using c by (simp add: d'_def)
      also have "\<dots> = bfly_val h w i m data p" by (rule at [OF p])
      also have "\<dots> = bfly_val h w i (Suc m) data p"
        using c unfolding bfly_val_def by (auto simp: less_Suc_eq)
      finally show ?thesis .
    qed
  qed
  from run len' at' show ?case by blast
qed

lemma fft_block_closed:
  assumes "i + 2 * h \<le> length data"
  shows "length (fft_block (2 * h) w i data) = length data \<and>
         (\<forall>p < length data. fft_block (2 * h) w i data ! p = bfly_val h w i h data p)"
proof -
  from butterfly_fold [OF le_refl assms, of w]
  obtain d where "fold (butterfly (2 * h) i w) [0 ..< h] (data, 1) = (d, w ^ h)"
    and "length d = length data" and "\<forall>p < length data. d ! p = bfly_val h w i h data p"
    by blast
  then show ?thesis by (simp add: fft_block_def)
qed

lemma block_mod:
  fixes p :: nat
  assumes "b * L \<le> p" "p < b * L + L"
  shows "p mod L = p - b * L"
proof -
  have "p = b * L + (p - b * L)" using assms by simp
  moreover have "p - b * L < L" using assms by simp
  ultimately show ?thesis
    by (metis mod_mult_self3 mod_less)
qed

lemma block_floor:
  fixes p :: nat
  assumes "Suc b * L \<le> p" "0 < L"
  shows "Suc b * L \<le> p - p mod L"
proof -
  have "Suc b \<le> p div L"
    using assms by (simp add: less_eq_div_iff_mult_less_eq)
  then have "Suc b * L \<le> (p div L) * L"
    by (rule mult_le_mono1)
  also have "\<dots> = p - p mod L"
    by (simp add: minus_mod_eq_div_mult)
  finally show ?thesis .
qed

lemma block_ceil:
  fixes p :: nat
  assumes "p < c * L" "0 < L"
  shows "p - p mod L + L \<le> c * L"
proof -
  have "p div L < c"
    using assms by (simp add: less_mult_imp_div_less)
  then have "Suc (p div L) * L \<le> c * L"
    by (intro mult_le_mono1) simp
  moreover have "p - p mod L = (p div L) * L"
    by (simp add: minus_mod_eq_div_mult)
  ultimately show ?thesis by simp
qed

lemma bfly_val_outside:
  "p < i \<or> i + 2 * h \<le> p \<Longrightarrow> bfly_val h w i h data p = data ! p"
  by (auto simp: bfly_val_def)

lemma bfly_val_inside:
  assumes "i = b * (2 * h)" "i \<le> p" "p < i + 2 * h"
  shows "bfly_val h w i h data p = stage_val h w data p"
proof -
  have r: "p mod (2 * h) = p - i"
    using block_mod [of b "2 * h" p] assms by simp
  show ?thesis
    using assms(2,3) unfolding bfly_val_def stage_val_def r by auto
qed

lemma stage_val_cong:
  assumes h: "0 < h" and lo: "Suc b * (2 * h) \<le> p" and hi: "p < c * (2 * h)"
    and eq: "\<And>q. Suc b * (2 * h) \<le> q \<Longrightarrow> q < c * (2 * h) \<Longrightarrow> d1 ! q = d ! q"
  shows "stage_val h w d1 p = stage_val h w d p"
proof -
  define r where "r = p mod (2 * h)"
  have L: "0 < 2 * h" using h by simp
  have fl: "Suc b * (2 * h) \<le> p - r"
    unfolding r_def by (rule block_floor [OF lo L])
  have ce: "p - r + 2 * h \<le> c * (2 * h)"
    unfolding r_def by (rule block_ceil [OF hi L])
  have rp: "r \<le> p" unfolding r_def by simp
  have rl: "r < 2 * h" unfolding r_def using L by simp
  have e0: "d1 ! p = d ! p" by (rule eq [OF lo hi])
  show ?thesis
  proof (cases "r < h")
    case True
    have "d1 ! (p + h) = d ! (p + h)"
      using lo ce rp True by (intro eq) simp_all
    then show ?thesis using True e0 by (simp add: stage_val_def flip: r_def)
  next
    case False
    have "d1 ! (p - h) = d ! (p - h)"
      using fl hi rp False by (intro eq) simp_all
    then show ?thesis using False e0 by (simp add: stage_val_def flip: r_def)
  qed
qed

lemma fft_blocks_closed:
  assumes h: "0 < h" and n: "n = c * (2 * h)" and small: "n < 2 ^ 64"
  shows "b \<le> c \<Longrightarrow> length data = n \<Longrightarrow>
     \<exists>R. fft_blocks n (2 * h) w (b * (2 * h)) data = Some R \<and> length R = n \<and>
         (\<forall>p < n. R ! p = (if p < b * (2 * h) then data ! p else stage_val h w data p))"
proof (induction "c - b" arbitrary: b data)
  case 0
  then have "b = c" by simp
  then have "fft_blocks n (2 * h) w (b * (2 * h)) data = Some data"
    by (subst fft_blocks.simps) (simp add: n)
  then show ?case using 0 \<open>b = c\<close> by (simp add: n)
next
  case (Suc k)
  define i where "i = b * (2 * h)"
  define d1 where "d1 = fft_block (2 * h) w i data"
  have bc: "Suc b \<le> c" using Suc.hyps(2) by simp
  have "Suc b * (2 * h) \<le> c * (2 * h)"
    using bc by (rule mult_le_mono1)
  then have iL: "i + 2 * h \<le> n" by (simp add: i_def n)
  then have lt: "i < n" using h by simp
  have wrap: "(i + 2 * h) mod 2 ^ 64 = Suc b * (2 * h)"
    using iL small by (simp add: i_def)
  have unfold: "fft_blocks n (2 * h) w i data = fft_blocks n (2 * h) w (Suc b * (2 * h)) d1"
    using lt by (subst fft_blocks.simps) (simp only: if_True wrap d1_def)
  have "i + 2 * h \<le> length data" using iL Suc.prems by simp
  from fft_block_closed [OF this, of w]
  have len1: "length d1 = n" and at1: "\<And>p. p < n \<Longrightarrow> d1 ! p = bfly_val h w i h data p"
    using Suc.prems by (simp_all add: d1_def)
  have k: "k = c - Suc b" using Suc.hyps(2) by simp
  from Suc.hyps(1) [OF k bc len1]
  obtain R where r: "fft_blocks n (2 * h) w (Suc b * (2 * h)) d1 = Some R"
    and lenR: "length R = n"
    and atR: "\<And>p. p < n \<Longrightarrow> R ! p = (if p < Suc b * (2 * h) then d1 ! p else stage_val h w d1 p)"
    by blast
  have "R ! p = (if p < b * (2 * h) then data ! p else stage_val h w data p)" if p: "p < n" for p
  proof -
    consider (before) "p < i" | (inside) "i \<le> p" "p < i + 2 * h" | (after) "i + 2 * h \<le> p"
      by linarith
    then show ?thesis
    proof cases
      case before
      then have "R ! p = d1 ! p" using atR [OF p] by (simp add: i_def)
      also have "\<dots> = data ! p"
        using at1 [OF p] before by (simp add: bfly_val_outside)
      finally show ?thesis using before by (simp add: i_def)
    next
      case inside
      then have "R ! p = d1 ! p" using atR [OF p] by (simp add: i_def)
      also have "\<dots> = stage_val h w data p"
        using at1 [OF p] inside bfly_val_inside [of i b h p w data] by (simp add: i_def)
      finally show ?thesis using inside by (simp add: i_def)
    next
      case after
      then have lo: "Suc b * (2 * h) \<le> p" by (simp add: i_def)
      have hi: "p < c * (2 * h)" using p by (simp add: n)
      have "R ! p = stage_val h w d1 p" using atR [OF p] lo by simp
      also have "\<dots> = stage_val h w data p"
      proof (rule stage_val_cong [OF h lo hi])
        fix q assume q: "Suc b * (2 * h) \<le> q" "q < c * (2 * h)"
        then have "q < n" "i + 2 * h \<le> q" by (simp_all add: n i_def)
        then show "d1 ! q = data ! q"
          using at1 [of q] by (simp add: bfly_val_outside)
      qed
      finally show ?thesis using after by (simp add: i_def)
    qed
  qed
  with r lenR unfold show ?case by (auto simp: i_def)
qed

lemma fft_stage_closed:
  assumes h: "0 < h" and n: "n = c * (2 * h)" and small: "n < 2 ^ 64" and len: "length data = n"
  shows "\<exists>R. fft_blocks n (2 * h) w 0 data = Some R \<and> length R = n \<and>
             (\<forall>p < n. R ! p = stage_val h w data p)"
  using fft_blocks_closed [OF h n small, of 0 data w] len by simp

lemma fft_wlen_cis: "fft_wlen N = cis (- 2 * pi / real N)"
  by (simp add: fft_wlen_def PI_def complex_eq_iff Let_def)

lemma fft_wlen_square: "0 < h \<Longrightarrow> (fft_wlen (2 * h))\<^sup>2 = fft_wlen h"
  by (simp add: fft_wlen_cis DeMoivre)

lemma fft_wlen_full: "0 < h \<Longrightarrow> fft_wlen h ^ h = 1"
  by (simp add: fft_wlen_cis DeMoivre complex_eq_iff)

lemma fft_wlen_half: "0 < h \<Longrightarrow> fft_wlen (2 * h) ^ h = - 1"
  by (simp add: fft_wlen_cis DeMoivre complex_eq_iff)

lemma sum_even_odd:
  fixes g :: "nat \<Rightarrow> complex"
  shows "(\<Sum>q < 2 * h. g q) = (\<Sum>q < h. g (2 * q)) + (\<Sum>q < h. g (2 * q + 1))"
  by (induction h) (simp_all add: algebra_simps)

lemma dft_split:
  fixes f :: "nat \<Rightarrow> complex" and W :: complex
  shows "(\<Sum>q < 2 * h. f q * W ^ (q * r)) =
         (\<Sum>q < h. f (2 * q) * (W\<^sup>2) ^ (q * r)) + W ^ r * (\<Sum>q < h. f (2 * q + 1) * (W\<^sup>2) ^ (q * r))"
proof -
  have e: "W ^ (2 * q * r) = (W\<^sup>2) ^ (q * r)" for q
    by (simp add: power_mult mult.assoc)
  have o: "f (2 * q + 1) * W ^ ((2 * q + 1) * r) = W ^ r * (f (2 * q + 1) * (W\<^sup>2) ^ (q * r))" for q
  proof -
    have "(2 * q + 1) * r = r + 2 * q * r" by (simp add: algebra_simps)
    then have "W ^ ((2 * q + 1) * r) = W ^ r * W ^ (2 * q * r)" by (simp only: power_add)
    then show ?thesis by (simp add: e)
  qed
  have "(\<Sum>q < 2 * h. f q * W ^ (q * r)) =
      (\<Sum>q < h. f (2 * q) * W ^ (2 * q * r)) + (\<Sum>q < h. f (2 * q + 1) * W ^ ((2 * q + 1) * r))"
    by (rule sum_even_odd)
  also have "\<dots> = (\<Sum>q < h. f (2 * q) * (W\<^sup>2) ^ (q * r)) +
      (\<Sum>q < h. W ^ r * (f (2 * q + 1) * (W\<^sup>2) ^ (q * r)))"
    by (simp only: e o)
  also have "\<dots> = (\<Sum>q < h. f (2 * q) * (W\<^sup>2) ^ (q * r)) +
      W ^ r * (\<Sum>q < h. f (2 * q + 1) * (W\<^sup>2) ^ (q * r))"
    by (simp only: sum_distrib_left)
  finally show ?thesis .
qed

lemma dft_blocks_stage:
  assumes sk: "s < k" and inv: "dft_blocks k s x data"
    and len: "length R = 2 ^ k"
    and at: "\<And>p. p < 2 ^ k \<Longrightarrow> R ! p = stage_val (2 ^ s) (fft_wlen (2 ^ Suc s)) data p"
  shows "dft_blocks k (Suc s) x R"
proof -
  define h :: nat where "h = 2 ^ s"
  define m where "m = k - Suc s"
  define W where "W = fft_wlen (2 * h)"
  have km: "k - s = Suc m" using sk by (simp add: m_def)
  have h0: "0 < h" by (simp add: h_def)
  have W2: "W\<^sup>2 = fft_wlen h" unfolding W_def by (rule fft_wlen_square [OF h0])
  have k2: "(2::nat) ^ k = 2 ^ m * (2 * h)"
  proof -
    have "k = m + Suc s" using sk by (simp add: m_def)
    then show ?thesis by (simp add: h_def power_add)
  qed
  have old: "data ! (b * h + r) =
      (\<Sum>q < h. x ! (bitrev (Suc m) b + 2 ^ Suc m * q) * (W\<^sup>2) ^ (q * r))"
    if "b < 2 ^ Suc m" "r < h" for b r
    using inv that unfolding dft_blocks_def km W2 h_def by blast
  have new: "R ! (B * (2 * h) + r) =
      (\<Sum>q < 2 * h. x ! (bitrev m B + 2 ^ m * q) * W ^ (q * r))"
    if B: "B < 2 ^ m" and r: "r < 2 * h" for B r
  proof -
    define p where "p = B * (2 * h) + r"
    define f where "f q = x ! (bitrev m B + 2 ^ m * q)" for q
    have "Suc B * (2 * h) \<le> 2 ^ m * (2 * h)"
      using B by (intro mult_le_mono1) simp
    then have pk: "p < 2 ^ k" using r by (simp add: p_def k2)
    have pm: "p mod (2 * h) = r" using r by (simp add: p_def)
    have B2: "2 * B < 2 ^ Suc m" "2 * B + 1 < 2 ^ Suc m" using B by simp_all
    have fe: "x ! (bitrev (Suc m) (2 * B) + 2 ^ Suc m * q) = f (2 * q)" for q
    proof -
      have "bitrev (Suc m) (2 * B) + 2 ^ Suc m * q = bitrev m B + 2 ^ m * (2 * q)"
        by (simp only: bitrev_even) simp
      then show ?thesis by (simp only: f_def)
    qed
    have fo: "x ! (bitrev (Suc m) (2 * B + 1) + 2 ^ Suc m * q) = f (2 * q + 1)" for q
    proof -
      have "bitrev (Suc m) (2 * B + 1) + 2 ^ Suc m * q = bitrev m B + 2 ^ m * (2 * q + 1)"
        by (simp only: bitrev_odd) (simp add: algebra_simps)
      then show ?thesis by (simp only: f_def)
    qed
    have split: "(\<Sum>q < 2 * h. f q * W ^ (q * r')) =
        (\<Sum>q < h. f (2 * q) * (W\<^sup>2) ^ (q * r')) + W ^ r' * (\<Sum>q < h. f (2 * q + 1) * (W\<^sup>2) ^ (q * r'))"
      for r'
      by (rule dft_split)
    have Rp: "R ! p = stage_val h W data p"
      using at [OF pk] by (simp add: h_def W_def)
    show ?thesis
    proof (cases "r < h")
      case True
      have "p = (2 * B) * h + r" by (simp add: p_def algebra_simps)
      then have e: "data ! p = (\<Sum>q < h. f (2 * q) * (W\<^sup>2) ^ (q * r))"
        using old [OF B2(1) True] by (simp only: fe)
      have "p + h = (2 * B + 1) * h + r" by (simp add: p_def algebra_simps)
      then have o: "data ! (p + h) = (\<Sum>q < h. f (2 * q + 1) * (W\<^sup>2) ^ (q * r))"
        using old [OF B2(2) True] by (simp only: fo)
      have "R ! p = data ! p + W ^ r * data ! (p + h)"
        using True by (simp add: Rp stage_val_def pm)
      also have "\<dots> = (\<Sum>q < 2 * h. f q * W ^ (q * r))"
        by (simp only: e o split)
      finally show ?thesis by (simp only: p_def f_def)
    next
      case False
      define r' where "r' = r - h"
      have r': "r' < h" "r = r' + h" using False r by (simp_all add: r'_def)
      have "p - h = (2 * B) * h + r'" by (simp add: p_def r' algebra_simps)
      then have e: "data ! (p - h) = (\<Sum>q < h. f (2 * q) * (W\<^sup>2) ^ (q * r'))"
        using old [OF B2(1) r'(1)] by (simp only: fe)
      have "p = (2 * B + 1) * h + r'" by (simp add: p_def r' algebra_simps)
      then have o: "data ! p = (\<Sum>q < h. f (2 * q + 1) * (W\<^sup>2) ^ (q * r'))"
        using old [OF B2(2) r'(1)] by (simp only: fo)
      have per: "(W\<^sup>2) ^ (q * r) = (W\<^sup>2) ^ (q * r')" for q
      proof -
        have "(W\<^sup>2) ^ (q * r) = (W\<^sup>2) ^ (q * r') * ((W\<^sup>2) ^ h) ^ q"
          by (simp add: r'(2) algebra_simps power_add power_mult)
        then show ?thesis by (simp add: W2 fft_wlen_full [OF h0])
      qed
      have neg: "W ^ r = - (W ^ r')"
        by (simp add: r'(2) power_add W_def fft_wlen_half [OF h0])
      have "R ! p = data ! (p - h) - W ^ r' * data ! p"
        using False by (simp add: Rp stage_val_def pm r'_def)
      also have "\<dots> = (\<Sum>q < h. f (2 * q) * (W\<^sup>2) ^ (q * r)) +
          W ^ r * (\<Sum>q < h. f (2 * q + 1) * (W\<^sup>2) ^ (q * r))"
        by (simp only: e o per neg) simp
      also have "\<dots> = (\<Sum>q < 2 * h. f q * W ^ (q * r))"
        by (simp only: split)
      finally show ?thesis by (simp only: p_def f_def)
    qed
  qed
  have ks: "k - Suc s = m" by (simp add: m_def)
  have hs: "(2::nat) ^ Suc s = 2 * h" by (simp add: h_def)
  show ?thesis
    unfolding dft_blocks_def ks hs using len new by (simp add: W_def)
qed

lemma isPowerOf2_exp:
  assumes "k < 64"
  shows "isPowerOf2 (of_nat (2 ^ k))"
proof -
  have e: "(of_nat (2 ^ k) :: 64 word) = 2 ^ k" by simp
  have nz: "(2 ^ k :: 64 word) \<noteq> 0"
    using assms by simp
  have "(2 ^ k :: 64 word) AND mask k = 0"
    by (rule bit_eqI) (auto simp: bit_simps)
  then have "(2 ^ k :: 64 word) AND (2 ^ k - 1) = 0"
    by (simp add: mask_eq_decr_exp)
  with nz show ?thesis
    unfolding isPowerOf2_def e by (simp add: word_gt_0)
qed

lemma fft_stages_correct:
  assumes k: "k \<le> 62"
  shows "s \<le> k \<Longrightarrow> dft_blocks k s x data \<Longrightarrow>
     \<exists>R. fft_stages (2 ^ k) (2 ^ Suc s) data = Some R \<and> dft_blocks k k x R"
proof (induction "k - s" arbitrary: s data)
  case 0
  then have s: "s = k" by simp
  have "\<not> (2::nat) ^ Suc k \<le> 2 ^ k" by simp
  then have "fft_stages (2 ^ k) (2 ^ Suc k) data = Some data"
    by (subst fft_stages.simps) (simp only: if_False)
  then show ?case using 0 s by simp
next
  case (Suc d)
  then have sk: "s < k" by simp
  define h :: nat where "h = 2 ^ s"
  define c :: nat where "c = 2 ^ (k - Suc s)"
  have h0: "0 < h" by (simp add: h_def)
  have "k = (k - Suc s) + Suc s" using sk by simp
  then have "(2::nat) ^ k = 2 ^ (k - Suc s) * 2 ^ Suc s" by (metis power_add)
  then have n: "(2::nat) ^ k = c * (2 * h)" by (simp add: c_def h_def)
  have "(2::nat) ^ k \<le> 2 ^ 62" using k by (intro power_increasing) simp_all
  then have small: "(2::nat) ^ k < 2 ^ 64" by simp
  have len: "length data = 2 ^ k" using Suc.prems(2) by (simp add: dft_blocks_def)
  from fft_stage_closed [OF h0 n small len, of "fft_wlen (2 ^ Suc s)"]
  obtain R1 where b: "fft_blocks (2 ^ k) (2 ^ Suc s) (fft_wlen (2 ^ Suc s)) 0 data = Some R1"
    and len1: "length R1 = 2 ^ k"
    and at1: "\<And>p. p < 2 ^ k \<Longrightarrow> R1 ! p = stage_val (2 ^ s) (fft_wlen (2 ^ Suc s)) data p"
    by (auto simp: h_def)
  have inv1: "dft_blocks k (Suc s) x R1"
    by (rule dft_blocks_stage [OF sk Suc.prems(2) len1 at1])
  have le: "(2::nat) ^ Suc s \<le> 2 ^ k"
    using sk by (intro power_increasing) simp_all
  have "(2::nat) ^ Suc (Suc s) \<le> 2 ^ 63"
    using sk k by (intro power_increasing) simp_all
  then have "(2::nat) ^ Suc (Suc s) < 2 ^ 64" by simp
  then have wrap: "(2 * 2 ^ Suc s) mod 2 ^ 64 = (2::nat) ^ Suc (Suc s)" by simp
  have unfold: "fft_stages (2 ^ k) (2 ^ Suc s) data = fft_stages (2 ^ k) (2 ^ Suc (Suc s)) R1"
    using le by (subst fft_stages.simps) (simp only: if_True b wrap bind.bind_lunit)
  have d: "d = k - Suc s" using Suc.hyps(2) by simp
  from Suc.hyps(1) [OF d _ inv1] sk
  obtain R where "fft_stages (2 ^ k) (2 ^ Suc (Suc s)) R1 = Some R" "dft_blocks k k x R"
    by auto
  then show ?case using unfold by simp
qed

lemma dft_blocks_final:
  assumes "dft_blocks k k x R" and "length x = 2 ^ k"
  shows "R = dft x"
proof (rule nth_equalityI)
  show "length R = length (dft x)"
    using assms by (simp add: dft_blocks_def dft_def)
next
  fix r assume "r < length R"
  then have r: "r < 2 ^ k" using assms(1) by (simp add: dft_blocks_def)
  have all: "\<forall>b < 2 ^ (k - k). \<forall>r < 2 ^ k. R ! (b * 2 ^ k + r) =
      (\<Sum>q < 2 ^ k. x ! (bitrev (k - k) b + 2 ^ (k - k) * q) * fft_wlen (2 ^ k) ^ (q * r))"
    using assms(1) unfolding dft_blocks_def by (rule conjunct2)
  have "(0::nat) < 2 ^ (k - k)" by simp
  with all [rule_format, of 0] have "\<And>r. r < 2 ^ k \<Longrightarrow> R ! (0 * 2 ^ k + r) =
      (\<Sum>q < 2 ^ k. x ! (bitrev (k - k) 0 + 2 ^ (k - k) * q) * fft_wlen (2 ^ k) ^ (q * r))"
    by blast
  with r have "R ! (0 * 2 ^ k + r) =
      (\<Sum>q < 2 ^ k. x ! (bitrev (k - k) 0 + 2 ^ (k - k) * q) * fft_wlen (2 ^ k) ^ (q * r))"
    by blast
  then have "R ! r = (\<Sum>q < 2 ^ k. x ! q * fft_wlen (2 ^ k) ^ (q * r))"
    by (simp add: bitrev_zero)
  then show "R ! r = dft x ! r"
    using r by (simp add: dft_def assms(2) fft_wlen_cis)
qed

lemma transformInPlace_dft:
  assumes len: "length x = 2 ^ k" and k: "k \<le> 62"
  shows "transformInPlace x = Some (Inr (dft x))"
proof (cases k)
  case 0
  then obtain a where x: "x = [a]"
    using len by (cases x) simp_all
  have p: "isPowerOf2 (of_nat (length x))"
    using isPowerOf2_exp [of 0] by (simp add: x)
  have "dft x = x" by (simp add: x dft_def)
  then show ?thesis using p by (simp add: transformInPlace_def x)
next
  case (Suc k')
  have p: "isPowerOf2 (of_nat (length x))"
    using isPowerOf2_exp [of k] k by (simp add: len)
  have "(1::nat) \<le> 2 ^ k'" by simp
  then have "(2::nat) \<le> 2 ^ k" unfolding Suc power_Suc by linarith
  then have big: "\<not> length x \<le> 1" by (simp only: len)
  from bitReversePermute_correct [of x k'] len Suc
  obtain y where y: "bitReversePermute x = Some y" and leny: "length y = 2 ^ k"
    and aty: "\<And>p. p < 2 ^ k \<Longrightarrow> y ! p = x ! bitrev k p"
    by auto
  have inv0: "dft_blocks k 0 x y"
    unfolding dft_blocks_def using leny aty by simp
  from fft_stages_correct [OF k _ inv0]
  obtain R where R: "fft_stages (2 ^ k) (2 ^ Suc 0) y = Some R" and invR: "dft_blocks k k x R"
    by auto
  have "R = dft x" by (rule dft_blocks_final [OF invR len])
  moreover have "fft_stages (length x) 2 y = Some R"
    using R by (simp add: len)
  ultimately show ?thesis
    using p big y unfolding transformInPlace_def Let_def by simp
qed

text \<open>A run of the loops themselves on a vector of four elements.\<close>

lemma wlen_2: "fft_wlen 2 = - 1"
  by (simp add: fft_wlen_def PI_def complex_eq_iff)

lemma wlen_4: "fft_wlen 4 = Complex 0 (- 1)"
  by (simp add: fft_wlen_def PI_def complex_eq_iff)

lemma bitrev_run:
  "bitReversePermute [a, b, c, d] = Some [a, c, b, d]"
  by (simp add: bitReversePermute_def bitrev_body_def upt_rec bitrev_while.simps)

lemma stages_run:
  "fft_stages 4 2 [a, c, b, d] =
     Some [a + c + (b + d), a - c + Complex 0 (- 1) * (b - d), a + c - (b + d), a - c - Complex 0 (- 1) * (b - d)]"
  by (simp add: fft_stages.simps fft_blocks.simps fft_block_def butterfly_def upt_rec wlen_2 wlen_4
      Let_def)

lemma transformInPlace_run:
  "transformInPlace [a, b, c, d] =
     Some (Inr [a + c + (b + d), a - c + Complex 0 (- 1) * (b - d), a + c - (b + d),
                a - c - Complex 0 (- 1) * (b - d)])"
proof -
  have p: "isPowerOf2 (of_nat 4)" by (simp add: isPowerOf2_def)
  have l: "length [a, b, c, d] = 4" by simp
  show ?thesis
    unfolding transformInPlace_def Let_def l using p by (simp add: bitrev_run stages_run)
qed

lemma nat_bit_le: "bit (a::nat) j \<Longrightarrow> 2 ^ j \<le> a"
proof -
  assume "bit a j"
  then have "odd (a div 2 ^ j)" by (simp add: bit_iff_odd)
  then have "a div 2 ^ j \<noteq> 0" by (intro notI) simp
  then show ?thesis
    by (metis div_less not_le)
qed

lemma nat_top_bit: "2 ^ j \<le> a \<Longrightarrow> a < 2 ^ Suc j \<Longrightarrow> bit (a::nat) j"
proof -
  assume lo: "2 ^ j \<le> a" and hi: "a < 2 ^ Suc j"
  have "a div 2 ^ j < 2" using hi by (simp add: less_mult_imp_div_less)
  moreover have "1 \<le> a div 2 ^ j" using lo by (simp add: less_eq_div_iff_mult_less_eq)
  ultimately have "a div 2 ^ j = 1" by linarith
  then show ?thesis by (simp add: bit_iff_odd)
qed

lemma smear_step:
  fixes x y :: "64 word"
  assumes "\<And>i. bit y i \<longleftrightarrow> (\<exists>j. i \<le> j \<and> j \<le> i + m \<and> bit x j)" and d: "d = Suc m"
  shows "bit (y OR drop_bit d y) i \<longleftrightarrow> (\<exists>j. i \<le> j \<and> j \<le> i + (2 * m + 1) \<and> bit x j)"
proof -
  have "bit (y OR drop_bit d y) i \<longleftrightarrow> bit y i \<or> bit y (Suc m + i)"
    by (simp add: bit_simps d)
  also have "\<dots> \<longleftrightarrow> (\<exists>j. i \<le> j \<and> j \<le> i + m \<and> bit x j) \<or>
      (\<exists>j. Suc m + i \<le> j \<and> j \<le> Suc m + i + m \<and> bit x j)"
    by (simp only: assms(1))
  also have "\<dots> \<longleftrightarrow> (\<exists>j. i \<le> j \<and> j \<le> i + (2 * m + 1) \<and> bit x j)"
  proof -
    have "(i \<le> j \<and> j \<le> i + m) \<or> (Suc m + i \<le> j \<and> j \<le> Suc m + i + m)
        \<longleftrightarrow> i \<le> j \<and> j \<le> i + (2 * m + 1)" for j
      by arith
    then show ?thesis by blast
  qed
  finally show ?thesis .
qed

lemma bit_smear: "bit (smear x) i \<longleftrightarrow> (\<exists>j. i \<le> j \<and> bit x j)"
proof -
  define z1 where "z1 = x OR drop_bit 1 x"
  define z2 where "z2 = z1 OR drop_bit 2 z1"
  define z3 where "z3 = z2 OR drop_bit 4 z2"
  define z4 where "z4 = z3 OR drop_bit 8 z3"
  define z5 where "z5 = z4 OR drop_bit 16 z4"
  define z6 where "z6 = z5 OR drop_bit 32 z5"
  have b0: "bit x i \<longleftrightarrow> (\<exists>j. i \<le> j \<and> j \<le> i + 0 \<and> bit x j)" for i
    by auto
  have b1: "bit z1 i \<longleftrightarrow> (\<exists>j. i \<le> j \<and> j \<le> i + 1 \<and> bit x j)" for i
    unfolding z1_def using smear_step [where y = x and m = 0 and x = x and d = 1 and i = i, OF b0] by simp
  have b2: "bit z2 i \<longleftrightarrow> (\<exists>j. i \<le> j \<and> j \<le> i + 3 \<and> bit x j)" for i
    unfolding z2_def using smear_step [where y = z1 and m = 1 and x = x and d = 2 and i = i, OF b1] by simp
  have b3: "bit z3 i \<longleftrightarrow> (\<exists>j. i \<le> j \<and> j \<le> i + 7 \<and> bit x j)" for i
    unfolding z3_def using smear_step [where y = z2 and m = 3 and x = x and d = 4 and i = i, OF b2] by simp
  have b4: "bit z4 i \<longleftrightarrow> (\<exists>j. i \<le> j \<and> j \<le> i + 15 \<and> bit x j)" for i
    unfolding z4_def using smear_step [where y = z3 and m = 7 and x = x and d = 8 and i = i, OF b3] by simp
  have b5: "bit z5 i \<longleftrightarrow> (\<exists>j. i \<le> j \<and> j \<le> i + 31 \<and> bit x j)" for i
    unfolding z5_def using smear_step [where y = z4 and m = 15 and x = x and d = 16 and i = i, OF b4] by simp
  have b6: "bit z6 i \<longleftrightarrow> (\<exists>j. i \<le> j \<and> j \<le> i + 63 \<and> bit x j)" for i
    unfolding z6_def using smear_step [where y = z5 and m = 31 and x = x and d = 32 and i = i, OF b5] by simp
  have s: "smear x = z6"
    unfolding smear_def Let_def z1_def z2_def z3_def z4_def z5_def z6_def by (rule refl)
  have "(\<exists>j. i \<le> j \<and> j \<le> i + 63 \<and> bit x j) \<longleftrightarrow> (\<exists>j. i \<le> j \<and> bit x j)"
  proof
    assume "\<exists>j. i \<le> j \<and> bit x j"
    then obtain j where j: "i \<le> j" "bit x j" by blast
    then have "j < 64" using bit_imp_le_length [of x j] by simp
    with j show "\<exists>j. i \<le> j \<and> j \<le> i + 63 \<and> bit x j" by auto
  qed blast
  then show ?thesis by (simp only: s b6)
qed

lemma smear_mask:
  assumes hi: "unat x < 2 ^ K" and lo: "K = 0 \<or> 2 ^ (K - 1) \<le> unat x" and K: "K \<le> 64"
  shows "smear x = mask K"
proof (rule bit_word_eqI)
  fix i assume i: "i < LENGTH(64)"
  have xb: "bit x j \<longleftrightarrow> bit (unat x) j" for j
    using bit_imp_le_length [of x j] by (auto simp: bit_unsigned_iff)
  have "(\<exists>j. i \<le> j \<and> bit x j) \<longleftrightarrow> i < K"
  proof
    assume "\<exists>j. i \<le> j \<and> bit x j"
    then obtain j where j: "i \<le> j" "bit (unat x) j" by (auto simp: xb)
    from nat_bit_le [OF j(2)] hi have "(2::nat) ^ j < 2 ^ K" by linarith
    then have "j < K" by simp
    with j show "i < K" by simp
  next
    assume iK: "i < K"
    then obtain K' where K': "K = Suc K'" by (cases K) simp_all
    with lo have "2 ^ K' \<le> unat x" by simp
    then have "bit (unat x) K'" using hi unfolding K' by (rule nat_top_bit)
    then have "bit x K'" by (simp add: xb)
    moreover have "i \<le> K'" using iK K' by simp
    ultimately show "\<exists>j. i \<le> j \<and> bit x j" by blast
  qed
  then show "bit (smear x) i = bit (mask K :: 64 word) i"
    using i by (simp add: bit_smear bit_simps)
qed

lemma nextPowerOf2_smear: "n \<noteq> 0 \<Longrightarrow> nextPowerOf2 n = smear (n - 1) + 1"
  by (simp add: nextPowerOf2_def smear_def Let_def)

lemma nextPowerOf2_nat:
  assumes m0: "0 < m" and m63: "m \<le> 2 ^ 63"
  shows "\<exists>K \<le> 63. unat (nextPowerOf2 (of_nat m)) = 2 ^ K \<and> m \<le> 2 ^ K \<and> (K = 0 \<or> 2 ^ (K - 1) < m)"
proof -
  define x :: "64 word" where "x = of_nat m - 1"
  have m64: "m < 2 ^ 64" using m63 by simp
  have um: "unat (of_nat m :: 64 word) = m"
    using m64 by (simp add: unat_of_nat)
  have nz: "(of_nat m :: 64 word) \<noteq> 0"
    using um m0 by (metis unat_0 less_numeral_extra(3))
  have ux: "unat x = m - 1"
    unfolding x_def using nz um by (simp add: unat_minus_one)
  define K where "K = (LEAST K. m - 1 < 2 ^ K)"
  have ex: "m - 1 < 2 ^ 63" using m63 m0 by simp
  have hi: "m - 1 < 2 ^ K" unfolding K_def using ex by (rule LeastI)
  have K63: "K \<le> 63" unfolding K_def using ex by (rule Least_le)
  have lo: "K = 0 \<or> 2 ^ (K - 1) \<le> m - 1"
  proof (cases K)
    case 0 then show ?thesis by simp
  next
    case (Suc K')
    have "\<not> m - 1 < 2 ^ K'"
    proof
      assume "m - 1 < 2 ^ K'"
      then have "K \<le> K'" unfolding K_def by (rule Least_le)
      with Suc show False by simp
    qed
    then show ?thesis using Suc by simp
  qed
  have "smear x = mask K"
    using hi lo K63 by (intro smear_mask) (simp_all add: ux)
  then have "nextPowerOf2 (of_nat m) = 2 ^ K"
    using nz by (simp add: nextPowerOf2_smear x_def inc_mask_eq_exp)
  moreover have "unat (2 ^ K :: 64 word) = 2 ^ K"
  proof -
    have "(2::nat) ^ K \<le> 2 ^ 63" using K63 by (intro power_increasing) simp_all
    then have "(2::nat) ^ K < 2 ^ 64" by simp
    moreover have "(2 ^ K :: 64 word) = of_nat (2 ^ K)" by simp
    ultimately show ?thesis by (simp only: unat_of_nat) simp
  qed
  ultimately have "unat (nextPowerOf2 (of_nat m)) = 2 ^ K" by simp
  moreover have "m \<le> 2 ^ K" using hi by simp
  moreover have "K = 0 \<or> 2 ^ (K - 1) < m" using lo m0 by auto
  ultimately show ?thesis using K63 by blast
qed

lemma nextPowerOf2_exp:
  assumes "k \<le> 63"
  shows "unat (nextPowerOf2 (of_nat (2 ^ k))) = 2 ^ k"
proof -
  have "(2::nat) ^ k \<le> 2 ^ 63" using assms by (intro power_increasing) simp_all
  from nextPowerOf2_nat [OF _ this]
  obtain K where K: "unat (nextPowerOf2 (of_nat (2 ^ k))) = 2 ^ K" "(2::nat) ^ k \<le> 2 ^ K"
    "K = 0 \<or> (2::nat) ^ (K - 1) < 2 ^ k"
    by auto
  from K(2) have "k \<le> K" by simp
  moreover from K(3) have "K = 0 \<or> K - 1 < k" by simp
  ultimately have "K = k" by auto
  with K(1) show ?thesis by simp
qed

lemma root_of_unity_sum:
  assumes q: "q < n" and m: "m < n"
  shows "(\<Sum>r < n. cis (- 2 * pi / real n) ^ (q * r) * cnj (cis (- 2 * pi / real n)) ^ (r * m)) =
         (if q = m then of_nat n else 0)"
proof -
  define t where "t = 2 * pi * (real m - real q) / real n"
  define z where "z = cis t"
  have n0: "0 < n" using q by simp
  have tm: "cis (- 2 * pi / real n) ^ (q * r) * cnj (cis (- 2 * pi / real n)) ^ (r * m) = z ^ r" for r
  proof -
    have "cis (- 2 * pi / real n) ^ (q * r) * cnj (cis (- 2 * pi / real n)) ^ (r * m)
        = cis (real (q * r) * (- 2 * pi / real n) + real (r * m) * (2 * pi / real n))"
      by (simp only: cis_cnj DeMoivre cis_mult) simp
    also have "real (q * r) * (- 2 * pi / real n) + real (r * m) * (2 * pi / real n) = real r * t"
      using n0 by (simp add: t_def field_simps)
    also have "cis (real r * t) = z ^ r" by (simp add: z_def DeMoivre)
    finally show ?thesis .
  qed
  have zn: "z ^ n = 1"
  proof -
    have "real n * t = 2 * pi * (real m - real q)" using n0 by (simp add: t_def)
    then have "z ^ n = cis (2 * pi * (real m - real q))" by (simp add: z_def DeMoivre)
    also have "\<dots> = cis (2 * pi * real_of_int (int m - int q))" by simp
    also have "\<dots> = 1"
      by (simp only: complex_eq_iff cis.simps cos_int_2pin sin_int_2pin) simp
    finally show ?thesis .
  qed
  have S: "(\<Sum>r < n. cis (- 2 * pi / real n) ^ (q * r) * cnj (cis (- 2 * pi / real n)) ^ (r * m))
      = (\<Sum>r < n. z ^ r)"
    by (simp only: tm)
  show ?thesis
  proof (cases "q = m")
    case True
    then have "z = 1" by (simp add: z_def t_def)
    then have "(\<Sum>r < n. z ^ r) = of_nat n" by simp
    with S have "(\<Sum>r < n. cis (- 2 * pi / real n) ^ (q * r) * cnj (cis (- 2 * pi / real n)) ^ (r * m))
      = of_nat n" by (rule trans)
    then show ?thesis by (subst True [symmetric]) (simp only: if_True refl)
  next
    case False
    have "z \<noteq> 1"
    proof
      assume "z = 1"
      then have "cos t = 1" by (simp add: z_def complex_eq_iff)
      then obtain j :: int where j: "t = real_of_int j * 2 * pi"
        by (auto simp: cos_one_2pi_int)
      then have "(2 * pi) * ((real m - real q) / real n) = (2 * pi) * real_of_int j"
        by (simp add: t_def)
      moreover have "2 * pi \<noteq> 0" by simp
      ultimately have "(real m - real q) / real n = real_of_int j"
        using mult_left_cancel [of "2 * pi" "(real m - real q) / real n" "real_of_int j"] by blast
      then have "real m - real q = real_of_int j * real n"
        using n0 by (simp add: field_simps)
      then have "real_of_int (int m - int q) = real_of_int (j * int n)" by simp
      then have e: "int m - int q = j * int n" by (simp only: of_int_eq_iff)
      have "\<bar>int m - int q\<bar> < int n" using q m by linarith
      then have "\<bar>j\<bar> * int n < 1 * int n" by (simp add: e abs_mult)
      then have "\<bar>j\<bar> < 1" using n0 by simp
      then have "j = 0" by simp
      with e False show False by simp
    qed
    then have "(\<Sum>r < n. z ^ r) = (z ^ n - 1) / (z - 1)" by (rule geometric_sum)
    then have "(\<Sum>r < n. z ^ r) = 0" by (simp add: zn)
    with S have "(\<Sum>r < n. cis (- 2 * pi / real n) ^ (q * r) * cnj (cis (- 2 * pi / real n)) ^ (r * m))
      = 0" by (rule trans)
    then show ?thesis using False by (simp only: if_False)
  qed
qed

lemma dft_nth:
  "r < length x \<Longrightarrow>
     dft x ! r = (\<Sum>q < length x. x ! q * cis (- 2 * pi / real (length x)) ^ (q * r))"
  by (simp add: dft_def)

lemma length_dft: "length (dft x) = length x"
  by (simp add: dft_def)

lemma dft_inversion:
  "map (\<lambda>c. cnj c / of_nat (length x)) (dft (map cnj (dft x))) = x"
proof (rule nth_equalityI)
  show "length (map (\<lambda>c. cnj c / of_nat (length x)) (dft (map cnj (dft x)))) = length x"
    by (simp add: length_dft)
next
  fix m assume "m < length (map (\<lambda>c. cnj c / of_nat (length x)) (dft (map cnj (dft x))))"
  then have m: "m < length x" by (simp add: length_dft)
  define n where "n = length x"
  define w where "w = cis (- 2 * pi / real n)"
  have n0: "0 < n" using m unfolding n_def by (cases x) simp_all
  have "cnj (dft (map cnj (dft x)) ! m) = cnj (\<Sum>r < n. cnj (dft x ! r) * w ^ (r * m))"
    using m by (simp add: dft_nth length_dft n_def w_def)
  also have "\<dots> = (\<Sum>r < n. dft x ! r * cnj w ^ (r * m))"
    by simp
  also have "\<dots> = (\<Sum>r < n. (\<Sum>q < n. x ! q * w ^ (q * r)) * cnj w ^ (r * m))"
    by (simp add: dft_nth n_def w_def)
  also have "\<dots> = (\<Sum>r < n. \<Sum>q < n. x ! q * (w ^ (q * r) * cnj w ^ (r * m)))"
    by (simp add: sum_distrib_right mult.assoc)
  also have "\<dots> = (\<Sum>q < n. \<Sum>r < n. x ! q * (w ^ (q * r) * cnj w ^ (r * m)))"
    by (rule sum.swap)
  also have "\<dots> = (\<Sum>q < n. x ! q * (\<Sum>r < n. w ^ (q * r) * cnj w ^ (r * m)))"
    by (simp add: sum_distrib_left)
  also have "\<dots> = (\<Sum>q < n. x ! q * (if q = m then of_nat n else 0))"
  proof (rule sum.cong [OF refl])
    fix q assume "q \<in> {..<n}"
    then have "q < n" by simp
    then have "(\<Sum>r < n. w ^ (q * r) * cnj w ^ (r * m)) = (if q = m then of_nat n else 0)"
      unfolding w_def using m by (intro root_of_unity_sum) (simp_all add: n_def)
    then show "x ! q * (\<Sum>r < n. w ^ (q * r) * cnj w ^ (r * m)) =
        x ! q * (if q = m then of_nat n else 0)"
      by (simp only:)
  qed
  also have "\<dots> = (\<Sum>q < n. if q = m then x ! m * of_nat n else 0)"
    by (intro sum.cong refl) simp
  also have "\<dots> = x ! m * of_nat n"
    using m by (simp add: n_def)
  finally have "cnj (dft (map cnj (dft x)) ! m) / of_nat n = x ! m"
    using n0 by simp
  then show "map (\<lambda>c. cnj c / of_nat (length x)) (dft (map cnj (dft x))) ! m = x ! m"
    using m by (simp add: length_dft n_def)
qed

lemma copy_fold:
  assumes "length signal \<le> n"
  shows "m \<le> length signal \<Longrightarrow>
     length (fold (\<lambda>i d. d[i := Complex (signal ! i) 0]) [0 ..< m] (replicate n (Complex 0 0))) = n \<and>
     (\<forall>p < n. fold (\<lambda>i d. d[i := Complex (signal ! i) 0]) [0 ..< m] (replicate n (Complex 0 0)) ! p =
        (if p < m then Complex (signal ! p) 0 else Complex 0 0))"
proof (induction m)
  case 0
  show ?case by simp
next
  case (Suc m)
  then have IH: "length (fold (\<lambda>i d. d[i := Complex (signal ! i) 0]) [0 ..< m] (replicate n (Complex 0 0))) = n"
    "\<And>p. p < n \<Longrightarrow> fold (\<lambda>i d. d[i := Complex (signal ! i) 0]) [0 ..< m] (replicate n (Complex 0 0)) ! p =
        (if p < m then Complex (signal ! p) 0 else Complex 0 0)"
    by simp_all
  have mn: "m < n" using Suc.prems assms by simp
  show ?case
    using IH mn by (auto simp: nth_list_update less_Suc_eq)
qed

lemma transform_copy:
  assumes "length signal \<le> n"
  shows "fold (\<lambda>i d. d[i := Complex (signal ! i) 0]) [0 ..< length signal] (replicate n (Complex 0 0))
         = spec_zero_pad signal n"
proof (rule nth_equalityI)
  show "length (fold (\<lambda>i d. d[i := Complex (signal ! i) 0]) [0 ..< length signal]
      (replicate n (Complex 0 0))) = length (spec_zero_pad signal n)"
    using copy_fold [OF assms le_refl] assms by (simp add: spec_zero_pad_def)
next
  fix p assume "p < length (fold (\<lambda>i d. d[i := Complex (signal ! i) 0]) [0 ..< length signal]
      (replicate n (Complex 0 0)))"
  then have p: "p < n" using copy_fold [OF assms le_refl] by simp
  then show "fold (\<lambda>i d. d[i := Complex (signal ! i) 0]) [0 ..< length signal]
      (replicate n (Complex 0 0)) ! p = spec_zero_pad signal n ! p"
    using copy_fold [OF assms le_refl] by (simp add: spec_zero_pad_def nth_append)
qed

lemma transform_exp:
  assumes len: "length x = 2 ^ k" and k: "k \<le> 62"
  shows "transform x = Some (Inr (dft (map (\<lambda>v. Complex v 0) x)))"
proof -
  have n: "unat (nextPowerOf2 (of_nat (length x))) = length x"
    using nextPowerOf2_exp [of k] k by (simp add: len)
  have pad: "spec_zero_pad x (length x) = map (\<lambda>v. Complex v 0) x"
    by (simp add: spec_zero_pad_def)
  have "transform x = transformInPlace (map (\<lambda>v. Complex v 0) x)"
    unfolding transform_def Let_def n using transform_copy [of x "length x"] by (simp add: pad)
  also have "\<dots> = Some (Inr (dft (map (\<lambda>v. Complex v 0) x)))"
    using len k by (intro transformInPlace_dft) simp_all
  finally show ?thesis .
qed

lemma inverse_fft_dft:
  assumes len: "length x = 2 ^ k" and k: "k \<le> 62"
  shows "inverse_fft (dft x) = Some (Inr x)"
proof -
  have "length (map cnj (dft x)) = 2 ^ k" by (simp add: length_dft len)
  then have "transformInPlace (map cnj (dft x)) = Some (Inr (dft (map cnj (dft x))))"
    using k by (rule transformInPlace_dft)
  then show ?thesis
    using dft_inversion [of x] by (simp add: inverse_fft_def length_dft)
qed

lemma inverse_of_transform_exp:
  assumes "length x = 2 ^ k" and "k \<le> 62"
  shows "inverse_of_transform x = Some (Inr (map (\<lambda>v. Complex v 0) x))"
proof -
  have "inverse_fft (dft (map (\<lambda>v. Complex v 0) x)) = Some (Inr (map (\<lambda>v. Complex v 0) x))"
    using assms by (intro inverse_fft_dft) simp_all
  with transform_exp [OF assms] show ?thesis by (simp add: inverse_of_transform_def)
qed

lemma transform_total:
  assumes "length signal \<le> 2 ^ 62"
  shows "\<exists>K \<le> 62. unat (nextPowerOf2 (of_nat (length signal))) = 2 ^ K \<and>
           length signal \<le> 2 ^ K \<and>
           transform signal = Some (Inr (dft (spec_zero_pad signal (2 ^ K))))"
proof -
  define n where "n = unat (nextPowerOf2 (of_nat (length signal)))"
  have "\<exists>K \<le> 62. n = 2 ^ K \<and> length signal \<le> n"
  proof (cases "length signal = 0")
    case True
    then have "n = 2 ^ 0" by (simp add: n_def nextPowerOf2_def)
    with True show ?thesis by auto
  next
    case False
    then have pos: "0 < length signal" by simp
    have "length signal \<le> 2 ^ 63" using assms by simp
    from nextPowerOf2_nat [OF pos this]
    obtain K where K: "n = 2 ^ K" "length signal \<le> 2 ^ K" "K = 0 \<or> 2 ^ (K - 1) < length signal"
      by (auto simp: n_def)
    have "K \<le> 62"
    proof (cases "K = 0")
      case True
      then show ?thesis by simp
    next
      case False
      with K(3) assms have "(2::nat) ^ (K - 1) < 2 ^ 62" by linarith
      then have "K - 1 < 62" by (simp only: power_strict_increasing_iff rel_simps)
      then show ?thesis by simp
    qed
    with K show ?thesis by auto
  qed
  then obtain K where K: "K \<le> 62" "n = 2 ^ K" "length signal \<le> n" by blast
  define data where "data = spec_zero_pad signal n"
  have ld: "length data = 2 ^ K" using K by (simp add: data_def spec_zero_pad_def)
  have t: "transform signal = transformInPlace data"
    unfolding transform_def Let_def data_def using K(3) transform_copy [OF K(3)]
    by (simp flip: n_def)
  have r: "transformInPlace data = Some (Inr (dft data))"
    using ld K(1) by (rule transformInPlace_dft)
  show ?thesis
    using t r K by (intro exI [of _ K]) (simp add: n_def data_def)
qed

text \<open>
  C1. For every real-valued signal \<open>x\<close> whose length is a power of two (at most \<open>2\<^sup>6\<^sup>2\<close>, so
  that no 64-bit counter wraps), \<open>inverse(transform(x))\<close> returns \<open>x\<close>, exactly, over exact
  arithmetic.
\<close>

theorem inverse_transform_identity:
  "length x = 2 ^ k \<Longrightarrow> k \<le> 62 \<Longrightarrow>
     inverse_of_transform x = Some (Inr (map (\<lambda>v. Complex v 0) x))"
  by (rule inverse_of_transform_exp)

theorem inverse_transform_identity_witness:
  "length [1, 2, 3, 4 :: real] = 2 ^ 2 \<and> (2::nat) \<le> 62 \<and>
   inverse_of_transform [1, 2, 3, 4] =
     Some (Inr [Complex 1 0, Complex 2 0, Complex 3 0, Complex 4 0])"
  using inverse_transform_identity [of "[1, 2, 3, 4]" 2] by simp

text \<open>
  C7. For every input signal (of at most \<open>2\<^sup>6\<^sup>2\<close> samples), \<open>transform\<close> does not reject: it
  returns a vector whose length is \<open>nextPowerOf2\<close> of the input length, a power of two not
  below the input length, and that vector is the transform in place of the input padded
  with zeros to that length. In particular the power-of-two failure is not reached.
\<close>

theorem transform_pads_never_rejects:
  "length signal \<le> 2 ^ 62 \<Longrightarrow>
     (\<exists>out. transform signal = Some (Inr out) \<and>
        length out = unat (nextPowerOf2 (of_nat (length signal))) \<and>
        isPowerOf2 (of_nat (length out)) \<and> length signal \<le> length out \<and>
        transformInPlace (spec_zero_pad signal (length out)) = Some (Inr out)) \<and>
     transform signal \<noteq> Some (Inl invalid_argument)"
proof -
  assume "length signal \<le> 2 ^ 62"
  from transform_total [OF this]
  obtain K where K: "K \<le> 62" "unat (nextPowerOf2 (of_nat (length signal))) = 2 ^ K"
    "length signal \<le> 2 ^ K"
    "transform signal = Some (Inr (dft (spec_zero_pad signal (2 ^ K))))"
    by blast
  define out where "out = dft (spec_zero_pad signal (2 ^ K))"
  have len: "length out = 2 ^ K"
    using K(3) by (simp add: out_def length_dft spec_zero_pad_def)
  have "length (spec_zero_pad signal (2 ^ K)) = 2 ^ K"
    using K(3) by (simp add: spec_zero_pad_def)
  then have tip: "transformInPlace (spec_zero_pad signal (2 ^ K)) = Some (Inr out)"
    unfolding out_def using K(1) by (rule transformInPlace_dft)
  have p2: "isPowerOf2 (of_nat (length out))"
    unfolding len using K(1) by (intro isPowerOf2_exp) simp
  have "transform signal = Some (Inr out)" using K(4) by (simp add: out_def)
  then show ?thesis
    using len K(2,3) tip p2 by simp
qed

theorem transform_pads_never_rejects_witness:
  "length [1, 2, 3 :: real] \<le> 2 ^ 62 \<and>
   transform [1, 2, 3] \<noteq> Some (Inl invalid_argument) \<and>
   unat (nextPowerOf2 (of_nat (length [1, 2, 3 :: real]))) = 4"
  using transform_pads_never_rejects [of "[1, 2, 3]"] by (simp add: nextPowerOf2_def)

subsection \<open>The spectrum analyzer\<close>








subsection \<open>\<^verbatim>\<open>updateBands\<close> returns for every sane configuration\<close>







subsection \<open>Which rebuilds leave no band empty\<close>


text \<open>
  On the logarithmic scale the same happens for every minimum frequency that is not
  positive: its logarithm is \<open>-\<infinity>\<close> or NaN, and so are the edges of the first band.
\<close>

lemma updateBands_log_nonpositive:
  assumes "useLogScale (config a)" "0 < numBands (config a)" "minFrequency (config a) \<le> 0"
  shows "updateBands a = None"
proof -
  have "[0 ..< numBands (config a)] = 0 # [1 ..< numBands (config a)]"
    using assms(2) by (simp add: upt_rec)
  then show ?thesis
    using assms(1,3) by (simp add: updateBands_def Let_def log_band_def)
qed





lemma for_each_bin_step:
  "for_each (bin_step mags) bs (bm, mx, pb) = Some (bm', mx', pb') \<Longrightarrow>
     (mx', pb') = fold (peak_step mags) bs (mx, pb)"
proof (induction bs arbitrary: bm mx pb)
  case Nil
  then show ?case by simp
next
  case (Cons b bs)
  from Cons.prems obtain s1 where s1: "bin_step mags b (bm, mx, pb) = Some s1"
    and rest: "for_each (bin_step mags) bs s1 = Some (bm', mx', pb')"
    by (cases "bin_step mags b (bm, mx, pb)") simp_all
  obtain bm1 mx1 pb1 where t: "s1 = (bm1, mx1, pb1)" by (cases s1)
  have "(mx1, pb1) = peak_step mags b (mx, pb)"
    using s1 unfolding t by (cases "b < length mags") (auto simp: bin_step_def peak_step_def Let_def)
  moreover have "(mx', pb') = fold (peak_step mags) bs (mx1, pb1)"
    using rest unfolding t by (rule Cons.IH)
  ultimately show ?case by simp
qed

lemma band_step_peak:
  assumes "band_step mags half band (a, mx, pb) = Some (a', mx', pb')"
  shows "band < length (bandBins a) \<and> bandBins a' = bandBins a \<and> config a' = config a \<and>
         sampleRate' a' = sampleRate' a \<and>
         (mx', pb') = fold (peak_step mags) (band_bins half (bandBins a ! band)) (mx, pb)"
proof -
  have g: "band < length (bandBins a) \<and> band < length (magnitudes (currentSpectrum a))"
    using assms by (cases "band < length (bandBins a) \<and> band < length (magnitudes (currentSpectrum a))")
      (simp_all add: band_step_def)
  obtain startBin endBin0 where se: "bandBins a ! band = (startBin, endBin0)"
    by (cases "bandBins a ! band")
  show ?thesis
  proof (cases "startBin \<ge> half")
    case True
    then show ?thesis using assms g by (auto simp: band_step_def se band_bins_def)
  next
    case False
    define bs where "bs = [startBin ..< Suc (min endBin0 (half - 1))]"
    from assms g False obtain r where r: "for_each (bin_step mags) bs (0, mx, pb) = Some r"
      by (cases "for_each (bin_step mags) bs (0, mx, pb)")
        (simp_all add: band_step_def se bs_def Let_def)
    obtain bm1 mx1 pb1 where t: "r = (bm1, mx1, pb1)" by (cases r)
    have fl: "(mx1, pb1) = fold (peak_step mags) bs (mx, pb)"
      using r unfolding t by (rule for_each_bin_step)
    have sm: "band < length (smoothedMagnitudes a)"
      using assms g False r t
      by (cases "band < length (smoothedMagnitudes a)") (simp_all add: band_step_def se bs_def Let_def)
    have "mx' = mx1 \<and> pb' = pb1 \<and> bandBins a' = bandBins a \<and> config a' = config a \<and>
        sampleRate' a' = sampleRate' a"
      using assms g False r t sm by (auto simp: band_step_def se bs_def Let_def)
    then show ?thesis
      using g fl False by (simp add: band_bins_def se bs_def)
  qed
qed

lemma for_each_band_step:
  "for_each (band_step mags half) is (a, mx, pb) = Some (a', mx', pb') \<Longrightarrow>
     (\<forall>i \<in> set is. i < length (bandBins a)) \<and> bandBins a' = bandBins a \<and> config a' = config a \<and>
     sampleRate' a' = sampleRate' a \<and>
     (mx', pb') = fold (peak_step mags)
       (concat (map (\<lambda>i. band_bins half (bandBins a ! i)) is)) (mx, pb)"
proof (induction "is" arbitrary: a mx pb)
  case Nil
  then show ?case by simp
next
  case (Cons i "is")
  from Cons.prems obtain s1 where s1: "band_step mags half i (a, mx, pb) = Some s1"
    and rest: "for_each (band_step mags half) is s1 = Some (a', mx', pb')"
    by (cases "band_step mags half i (a, mx, pb)") simp_all
  obtain w1 mx1 pb1 where t: "s1 = (w1, mx1, pb1)" by (cases s1)
  note st = band_step_peak [OF s1 [unfolded t]]
  note ih = Cons.IH [OF rest [unfolded t]]
  have bb: "bandBins w1 = bandBins a" using st by simp
  show ?case
    using st ih by (simp add: bb)
qed

lemma map_nth_take: "n \<le> length xs \<Longrightarrow> map (\<lambda>i. f (xs ! i)) [0 ..< n] = map f (take n xs)"
  by (rule nth_equalityI) simp_all

lemma fold_peak_step:
  "fold (peak_step mags) bs (mx, pb) = (mx', pb') \<Longrightarrow>
     mx \<le> mx' \<and> (\<forall>b \<in> set bs. mags ! b \<le> mx') \<and>
     ((mx', pb') = (mx, pb) \<or> (pb' \<in> set bs \<and> mags ! pb' = mx' \<and> mx < mx'))"
proof (induction bs arbitrary: mx pb)
  case Nil
  then show ?case by simp
next
  case (Cons b bs)
  obtain mx1 pb1 where s: "peak_step mags b (mx, pb) = (mx1, pb1)"
    by (cases "peak_step mags b (mx, pb)")
  have one: "mx \<le> mx1 \<and> mags ! b \<le> mx1 \<and>
      ((mx1, pb1) = (mx, pb) \<or> (pb1 = b \<and> mags ! b = mx1 \<and> mx < mx1))"
    using s by (auto simp: peak_step_def split: if_splits)
  from Cons.prems have "fold (peak_step mags) bs (mx1, pb1) = (mx', pb')"
    by (simp add: s)
  from Cons.IH [OF this]
  have ih: "mx1 \<le> mx'" "\<forall>b \<in> set bs. mags ! b \<le> mx'"
    "(mx', pb') = (mx1, pb1) \<or> (pb' \<in> set bs \<and> mags ! pb' = mx' \<and> mx1 < mx')"
    by simp_all
  show ?case
    using one ih by auto
qed

text \<open>
  C9, amended. The reported peak frequency is \<open>peakBin \<cdot> (sampleRate / fftSize)\<close> where
  \<open>peakBin\<close> is a bin of largest unsmoothed magnitude among the bins that the band loop
  visits (the bin ranges of the configured bands, below \<open>fftSize / 2\<close>), when one of them
  has a positive magnitude, and bin 0 otherwise.
\<close>

theorem peak_frequency_of_visited_bins:
  "computeSpectrum a = Some (Inr a') \<Longrightarrow>
     \<exists>samples mags peakBin.
       analysis_samples a = Some samples \<and>
       analysis_magnitudes (fftSize (config a)) samples = Some (Inr mags) \<and>
       peakFrequency (currentSpectrum a') =
         real peakBin * (real (sampleRate' a) / real (fftSize (config a))) \<and>
       (if \<exists>b \<in> set (spec_visited_bins a). 0 < mags ! b
        then peakBin \<in> set (spec_visited_bins a) \<and>
             (\<forall>b \<in> set (spec_visited_bins a). mags ! b \<le> mags ! peakBin)
        else peakBin = 0)"
proof -
  assume c: "computeSpectrum a = Some (Inr a')"
  define n where "n = fftSize (config a)"
  have n0: "n \<noteq> 0"
    using c unfolding n_def by (cases "fftSize (config a) = 0") (simp_all add: computeSpectrum_def)
  obtain samples where smp: "analysis_samples a = Some samples"
    using c n0 by (cases "analysis_samples a") (simp_all add: computeSpectrum_def n_def Let_def)
  define w1 where "w1 = store_levels samples a"
  obtain r where r: "analysis_magnitudes n samples = Some r"
    using c n0 smp by (cases "analysis_magnitudes n samples")
      (simp_all add: computeSpectrum_def flip: n_def)
  obtain mags where mags: "r = Inr mags"
    using c n0 smp r by (cases r) (auto simp: computeSpectrum_def simp flip: n_def)
  have m: "map_to_bands n mags w1 = Some a'"
    using c n0 smp r mags by (auto simp: computeSpectrum_def w1_def simp flip: n_def)
  obtain t where t: "for_each (band_step mags (n div 2)) [0 ..< numBands (config w1)] (w1, 0, 0) = Some t"
    using m by (cases "for_each (band_step mags (n div 2)) [0 ..< numBands (config w1)] (w1, 0, 0)")
      (simp_all add: map_to_bands_def)
  obtain w2 mx pb where t3: "t = (w2, mx, pb)" by (cases t)
  have a': "a' = w2\<lparr>currentSpectrum := (currentSpectrum w2)
      \<lparr>peakFrequency := real pb * (real (sampleRate' w2) / real n)\<rparr>\<rparr>"
    using m by (simp add: map_to_bands_def t t3)
  note loop = for_each_band_step [OF t [unfolded t3]]
  have nb: "numBands (config w1) = numBands (config a)" and bb: "bandBins w1 = bandBins a"
    and sr: "sampleRate' w2 = sampleRate' a"
    using loop by (simp_all add: w1_def store_levels_def Let_def)
  have le: "numBands (config a) \<le> length (bandBins a)"
  proof (rule ccontr)
    assume "\<not> numBands (config a) \<le> length (bandBins a)"
    then have "length (bandBins a) \<in> set [0 ..< numBands (config w1)]" by (simp add: nb)
    with loop have "length (bandBins a) < length (bandBins w1)" by blast
    then show False by (simp add: bb)
  qed
  have vis: "concat (map (\<lambda>i. band_bins (n div 2) (bandBins w1 ! i)) [0 ..< numBands (config w1)])
      = spec_visited_bins a"
    unfolding spec_visited_bins_def nb bb using map_nth_take [OF le, of "band_bins (n div 2)"]
    by (simp add: n_def)
  have "(mx, pb) = fold (peak_step mags) (spec_visited_bins a) (0, 0)"
    using loop by (simp add: vis)
  from fold_peak_step [OF this [symmetric]]
  have f: "0 \<le> mx" "\<forall>b \<in> set (spec_visited_bins a). mags ! b \<le> mx"
    "(mx, pb) = (0, 0) \<or> (pb \<in> set (spec_visited_bins a) \<and> mags ! pb = mx \<and> 0 < mx)"
    by simp_all
  have pk: "if \<exists>b \<in> set (spec_visited_bins a). 0 < mags ! b
      then pb \<in> set (spec_visited_bins a) \<and> (\<forall>b \<in> set (spec_visited_bins a). mags ! b \<le> mags ! pb)
      else pb = 0"
  proof (cases "\<exists>b \<in> set (spec_visited_bins a). 0 < mags ! b")
    case True
    then obtain b where "b \<in> set (spec_visited_bins a)" "0 < mags ! b" by blast
    with f(2) have "0 < mx" by fastforce
    with f(3) have "pb \<in> set (spec_visited_bins a) \<and> mags ! pb = mx" by auto
    with f(2) True show ?thesis by simp
  next
    case False
    have "(mx, pb) = (0, 0)"
    proof (rule ccontr)
      assume "(mx, pb) \<noteq> (0, 0)"
      with f(3) have "pb \<in> set (spec_visited_bins a) \<and> 0 < mags ! pb" by auto
      with False show False by blast
    qed
    with False show ?thesis by simp
  qed
  have "peakFrequency (currentSpectrum a') = real pb * (real (sampleRate' a) / real n)"
    by (simp add: a' sr)
  with smp r mags pk show ?thesis
    unfolding n_def by blast
qed

lemma peak_example_bands:
  "updateBands (peak_example\<lparr>bandFrequencies := [], bandBins := []\<rparr>) = Some peak_example"
  by (simp add: updateBands_def peak_example_def resize_def linear_band_def set_band_def
      bin_of_def to_size_t_def Let_def)

lemma peak_example_samples: "analysis_samples peak_example = Some [0, 1, 1, 0]"
  by (simp add: analysis_samples_def peak_example_def Let_def upt_rec)

lemma cos_4pi_3: "cos (4 * pi / 3) = - 1 / 2"
proof -
  have "cos (pi / 3 + pi) = - cos (pi / 3)" by (rule cos_periodic_pi)
  moreover have "pi / 3 + pi = 4 * pi / 3" by simp
  ultimately show ?thesis by (simp add: cos_60)
qed

lemma hann_example: "applyHannWindow [0, 1, 1, 0] = [0, 3 / 4, 3 / 4, 0]"
  by (simp add: applyHannWindow_def PI_def Let_def upt_rec cos_120 cos_4pi_3)

lemma cis_quarter: "cis (- 2 * pi / real (4::nat)) = Complex 0 (- 1)"
  by (simp add: complex_eq_iff)

lemma sum_upto_4: "(\<Sum>q < (4::nat). f q) = f 0 + f 1 + f 2 + (f 3 :: complex)"
  by (simp add: eval_nat_numeral lessThan_Suc)

lemma w_powers:
  "Complex 0 (- 1) ^ 2 = - 1" "Complex 0 (- 1) ^ 3 = Complex 0 1" "Complex 0 (- 1) ^ 4 = 1"
  "Complex 0 (- 1) ^ 6 = - 1"
  by (simp_all add: eval_nat_numeral complex_eq_iff)

lemma upt_4: "[0 ..< 4] = [0, 1, 2, 3]"
  by (simp add: upt_rec)

lemma dft_example:
  "dft [Complex 0 0, Complex (3 / 4) 0, Complex (3 / 4) 0, Complex 0 0] =
     [Complex (3 / 2) 0, Complex (- 3 / 4) (- 3 / 4), Complex 0 0, Complex (- 3 / 4) (3 / 4)]"
proof -
  have len: "length [Complex 0 0, Complex (3 / 4) 0, Complex (3 / 4) 0, Complex 0 0] = 4"
    by simp
  show ?thesis
    unfolding dft_def len cis_quarter upt_4 sum_upto_4
    by (simp add: w_powers complex_eq_iff)
qed

lemma transform_example:
  "transform [0, 3 / 4, 3 / 4, 0] =
     Some (Inr [Complex (3 / 2) 0, Complex (- 3 / 4) (- 3 / 4), Complex 0 0, Complex (- 3 / 4) (3 / 4)])"
  using transform_exp [of "[0, 3 / 4, 3 / 4, 0]" 2] by (simp add: dft_example)

lemma sqrt_9_4: "sqrt (9 / 4) = 3 / 2"
  by (rule real_sqrt_unique) (simp_all add: power2_eq_square)

lemma magnitudes_example:
  "analysis_magnitudes 4 [0, 1, 1, 0] = Some (Inr peak_example_magnitudes)"
  by (simp add: analysis_magnitudes_def hann_example transform_example magnitude_def
      peak_example_magnitudes_def cmod_def power2_eq_square sqrt_9_4)

lemma m1_bounds: "0 < sqrt (9 / 8) / 2" "sqrt (9 / 8) / 2 \<le> 3 / 4"
proof -
  show "0 < sqrt (9 / 8) / 2" by simp
  have "sqrt (9 / 8) \<le> sqrt ((3 / 2)\<^sup>2)"
    by (subst real_sqrt_le_iff) (simp add: power2_eq_square)
  then show "sqrt (9 / 8) / 2 \<le> 3 / 4" by simp
qed

lemma bands_example:
  "map_option (\<lambda>a. peakFrequency (currentSpectrum a))
     (map_to_bands 4 peak_example_magnitudes (store_levels [0, 1, 1, 0] peak_example)) = Some 11025"
  using m1_bounds
  by (simp add: map_to_bands_def store_levels_def peak_example_def Let_def band_step_def
      bin_step_def peak_example_magnitudes_def upt_rec)

lemma compute_example:
  "map_option (map_sum id (\<lambda>a. peakFrequency (currentSpectrum a))) (computeSpectrum peak_example)
     = Some (Inr 11025)"
proof -
  have f: "fftSize (config peak_example) = 4" by (simp add: peak_example_def)
  obtain r where r: "map_to_bands 4 peak_example_magnitudes (store_levels [0, 1, 1, 0] peak_example) = Some r"
    and p: "peakFrequency (currentSpectrum r) = 11025"
    using bands_example by auto
  show ?thesis
    by (simp add: computeSpectrum_def f peak_example_samples magnitudes_example r p)
qed

lemma global_peak_example: "spec_global_peak_bin peak_example_magnitudes 2 = 0"
  using m1_bounds by (simp add: spec_global_peak_bin_def peak_step_def peak_example_magnitudes_def upt_rec)

lemma visited_example: "spec_visited_bins peak_example = [1]"
  by (simp add: spec_visited_bins_def peak_example_def band_bins_def)

text \<open>
  C9 as stated fails: with the only band on bin 1 and the largest magnitude in bin 0, the
  reported peak frequency is that of bin 1, 11025 Hz, and not that of the global peak bin.
\<close>

theorem peak_frequency_counterexample:
  "reported_peak peak_example = Some (Inr 11025) \<and> spec_claimed_peak peak_example = Some (Inr 0)"
proof -
  have f: "fftSize (config peak_example) = 4" by (simp add: peak_example_def)
  have "spec_claimed_peak peak_example = Some (Inr 0)"
    by (simp add: spec_claimed_peak_def f peak_example_samples magnitudes_example global_peak_example)
  then show ?thesis
    using compute_example by (simp add: reported_peak_def)
qed

theorem peak_frequency_of_visited_bins_witness:
  "spec_visited_bins peak_example = [1] \<and>
   reported_peak peak_example =
     Some (Inr (real 1 * (real (sampleRate' peak_example) / real (fftSize (config peak_example)))))"
proof -
  from compute_example obtain a' where c: "computeSpectrum peak_example = Some (Inr a')"
    by (cases "computeSpectrum peak_example") (auto simp: map_sum_def split: sum.splits)
  have f: "fftSize (config peak_example) = 4" by (simp add: peak_example_def)
  from peak_frequency_of_visited_bins [OF c]
  obtain mags peakBin where m: "analysis_magnitudes 4 [0, 1, 1, 0] = Some (Inr mags)"
    and pf: "peakFrequency (currentSpectrum a') =
       real peakBin * (real (sampleRate' peak_example) / real (fftSize (config peak_example)))"
    and pk: "if \<exists>b \<in> set (spec_visited_bins peak_example). 0 < mags ! b
        then peakBin \<in> set (spec_visited_bins peak_example) \<and>
             (\<forall>b \<in> set (spec_visited_bins peak_example). mags ! b \<le> mags ! peakBin)
        else peakBin = 0"
    by (auto simp: peak_example_samples f)
  have mags: "mags = peak_example_magnitudes"
    using m by (simp add: magnitudes_example)
  have "0 < mags ! 1"
    using m1_bounds by (simp add: mags peak_example_magnitudes_def)
  with pk have "peakBin = 1" by (simp add: visited_example)
  with pf c show ?thesis
    by (simp add: visited_example reported_peak_def)
qed

end
